theory Spec2Isabelle
  imports Main
begin

section \<open>The distributed lock service of the workers module\<close>

text \<open>
  A shallow embedding of \<^verbatim>\<open>src/workers/services/distributed-lock.service.ts\<close>:
  the class \<^verbatim>\<open>DistributedLockService\<close> with its operations \<^verbatim>\<open>acquire\<close>,
  \<^verbatim>\<open>release\<close>, \<^verbatim>\<open>extend\<close>, \<^verbatim>\<open>withLock\<close> and \<^verbatim>\<open>exists\<close>.

  The service is a client of a Redis store. Everything outside the class is made explicit
  in a \<open>world\<close>: the store's keys with their values and expiry times, the clock read by
  \<^verbatim>\<open>Date.now()\<close>, the process id, the values \<^verbatim>\<open>Math.random()\<close> will return,
  which of the coming store calls are rejected, and the trace of the store calls and
  sleeps made so far. A promise that rejects (an exception at the \<^verbatim>\<open>await\<close>) is the
  left injection of a sum; logging has no effect on any result and is left out.

  Each store command runs atomically in the store. What other processes do to the store
  between two operations of this service is not modelled as a step: the properties are
  stated for every world an operation may start from.
\<close>

subsection \<open>Values\<close>

text \<open>An exception: a rejected store call, or whatever the unit of work throws.\<close>

datatype error = StoreError string | WorkError string

text \<open>
  The results a unit of work \<^verbatim>\<open>fn: () => Promise<T>\<close> may produce. \<^verbatim>\<open>withLock\<close>
  returns \<^verbatim>\<open>T | null\<close>, an untagged union: the \<^verbatim>\<open>null\<close> of a skipped run is the
  same value as a \<^verbatim>\<open>null\<close> that \<^verbatim>\<open>fn\<close> returns.
\<close>

datatype jsval = JNull | JUndefined | JBool bool | JNum int | JStr string

text \<open>
  \<^verbatim>\<open>interface LockOptions { ttl?: number; retryCount?: number; retryDelay?: number }\<close>.
  The numbers of the options and of the configuration are whole numbers here; a
  fractional, \<^verbatim>\<open>NaN\<close> or infinite value lies outside the model.
\<close>

record LockOptions =
  ttl :: "int option"
  retryCount :: "int option"
  retryDelay :: "int option"

text \<open>The fields of the class. \<open>redis\<close> is the client, \<open>None\<close> for \<^verbatim>\<open>null\<close>.\<close>

record DistributedLockService =
  enabled :: bool
  redis :: "string option"
  defaultTtl :: int
  defaultRetryCount :: int
  defaultRetryDelay :: int

text \<open>The keys of the configuration the constructor reads, each possibly unset.\<close>

record WorkersConfig =
  cfg_enabled :: "bool option"
  cfg_redisUrl :: "string option"
  cfg_ttl :: "int option"
  cfg_retryCount :: "int option"
  cfg_retryDelay :: "int option"

text \<open>The store commands the service issues, as a spy on the client records them.\<close>

datatype call =
    Set string string int      \<comment> \<open>\<^verbatim>\<open>SET key token PX ttl NX\<close>\<close>
  | EvalRelease string string  \<comment> \<open>\<^verbatim>\<open>EVAL\<close> of the check-and-delete script on key, token\<close>
  | EvalExtend string string int \<comment> \<open>\<^verbatim>\<open>EVAL\<close> of the check-and-extend script on key, token, ttl\<close>
  | Exists string              \<comment> \<open>\<^verbatim>\<open>EXISTS key\<close>\<close>

text \<open>What the service does to the outside, in order: store calls and sleeps.\<close>

datatype event = Call call | Sleep int

record world =
  store :: "string \<rightharpoonup> string \<times> int"  \<comment> \<open>key to (value, expiry time in ms)\<close>
  now :: nat                       \<comment> \<open>the clock, in ms\<close>
  pid :: nat                       \<comment> \<open>\<^verbatim>\<open>process.pid\<close>\<close>
  randoms :: "string list"         \<comment> \<open>the coming values of \<^verbatim>\<open>Math.random()\<close>, printed\<close>
  faults :: "bool list"            \<comment> \<open>for each coming store call: is it rejected?\<close>
  trace :: "event list"            \<comment> \<open>the store calls and sleeps so far, oldest first\<close>

text \<open>The store calls of a trace, and the delays of its sleeps.\<close>

fun calls_of :: "event list \<Rightarrow> call list" where
  "calls_of [] = []"
| "calls_of (Call c # es) = c # calls_of es"
| "calls_of (Sleep ms # es) = calls_of es"

fun sleeps_of :: "event list \<Rightarrow> int list" where
  "sleeps_of [] = []"
| "sleeps_of (Call c # es) = sleeps_of es"
| "sleeps_of (Sleep ms # es) = ms # sleeps_of es"

subsection \<open>The store\<close>

text \<open>
  Modelled from the spec: the key-value store (Redis, reached through the ioredis client)
  is an external collaborator whose code is not in the repository. The spec lists what
  it offers: an atomic set-if-absent with expiry that replies ok or already-exists, a
  compare-and-delete and a compare-and-expire that reply 1 or 0, and an existence check.
  The commands below follow that list and Redis's documented replies; the two scripts
  are the ones written out in the source. A key whose expiry time has passed is absent
  for every command. The store and \<^verbatim>\<open>Date.now()\<close> read one clock.
\<close>

definition live :: "world \<Rightarrow> string \<Rightarrow> string option" where
  "live w k =
     (case store w k of
        None \<Rightarrow> None
      | Some (v, e) \<Rightarrow> if int (now w) < e then Some v else None)"

text \<open>\<^verbatim>\<open>SET k v PX t NX\<close>: sets only when the key is absent; replies OK or nil.\<close>

definition cmd_set_px_nx :: "string \<Rightarrow> string \<Rightarrow> int \<Rightarrow> world \<Rightarrow> string option \<times> world" where
  "cmd_set_px_nx k v t w =
     (case live w k of
        Some u \<Rightarrow> (None, w)
      | None \<Rightarrow> (Some ''OK'', w\<lparr>store := (store w)(k \<mapsto> (v, int (now w) + t))\<rparr>))"

text \<open>\<^verbatim>\<open>GET k\<close>\<close>

definition cmd_get :: "string \<Rightarrow> world \<Rightarrow> string option" where
  "cmd_get k w = live w k"

text \<open>\<^verbatim>\<open>DEL k\<close>: replies the number of keys removed.\<close>

definition cmd_del :: "string \<Rightarrow> world \<Rightarrow> int \<times> world" where
  "cmd_del k w =
     (case live w k of
        None \<Rightarrow> (0, w)
      | Some u \<Rightarrow> (1, w\<lparr>store := (store w)(k := None)\<rparr>))"

text \<open>\<^verbatim>\<open>PEXPIRE k t\<close>: replies 1 when the timeout was set, 0 when the key is absent.\<close>

definition cmd_pexpire :: "string \<Rightarrow> int \<Rightarrow> world \<Rightarrow> int \<times> world" where
  "cmd_pexpire k t w =
     (case live w k of
        None \<Rightarrow> (0, w)
      | Some u \<Rightarrow> (1, w\<lparr>store := (store w)(k \<mapsto> (u, int (now w) + t))\<rparr>))"

text \<open>\<^verbatim>\<open>EXISTS k\<close>\<close>

definition cmd_exists :: "string \<Rightarrow> world \<Rightarrow> int" where
  "cmd_exists k w = (case live w k of None \<Rightarrow> 0 | Some u \<Rightarrow> 1)"

text \<open>
  The two Lua scripts of the source, each run atomically by the store:
  \<^verbatim>\<open>if redis.call("get", KEYS[1]) == ARGV[1] then return redis.call("del", KEYS[1]) else return 0 end\<close>
  and the same with \<^verbatim>\<open>redis.call("pexpire", KEYS[1], ARGV[2])\<close>.
\<close>

definition release_script :: "string \<Rightarrow> string \<Rightarrow> world \<Rightarrow> int \<times> world" where
  "release_script k token w =
     (if cmd_get k w = Some token then cmd_del k w else (0, w))"

definition extend_script :: "string \<Rightarrow> string \<Rightarrow> int \<Rightarrow> world \<Rightarrow> int \<times> world" where
  "extend_script k token t w =
     (if cmd_get k w = Some token then cmd_pexpire k t w else (0, w))"

subsection \<open>The client\<close>

text \<open>
  A call through the client is recorded, then either rejected (the next entry of
  \<open>faults\<close>; no entry means no fault) or run by the store. A rejected call leaves the
  store as it was.
\<close>

definition issue :: "call \<Rightarrow> world \<Rightarrow> bool \<times> world" where
  "issue c w =
     (faults w \<noteq> [] \<and> hd (faults w),
      w\<lparr>faults := tl (faults w), trace := trace w @ [Call c]\<rparr>)"

text \<open>
  \<^verbatim>\<open>this.redis.set(lockKey, token, 'PX', ttl, 'NX')\<close>. Redis rejects an expiry time
  that is not positive (\<^verbatim>\<open>ERR invalid expire time\<close>).
\<close>

definition redis_set :: "string \<Rightarrow> string \<Rightarrow> int \<Rightarrow> world \<Rightarrow> (error + string option) \<times> world" where
  "redis_set k v t w =
     (case issue (Set k v t) w of
        (f, w1) \<Rightarrow>
          if f then (Inl (StoreError ''unavailable''), w1)
          else if t \<le> 0 then (Inl (StoreError ''ERR invalid expire time''), w1)
          else (case cmd_set_px_nx k v t w1 of (r, w2) \<Rightarrow> (Inr r, w2)))"

text \<open>\<^verbatim>\<open>this.redis.eval(script, 1, lockKey, token)\<close> with the check-and-delete script.\<close>

definition redis_eval_release :: "string \<Rightarrow> string \<Rightarrow> world \<Rightarrow> (error + int) \<times> world" where
  "redis_eval_release k token w =
     (case issue (EvalRelease k token) w of
        (f, w1) \<Rightarrow>
          if f then (Inl (StoreError ''unavailable''), w1)
          else (case release_script k token w1 of (r, w2) \<Rightarrow> (Inr r, w2)))"

text \<open>\<^verbatim>\<open>this.redis.eval(script, 1, lockKey, token, ttl)\<close> with the check-and-extend script.\<close>

definition redis_eval_extend :: "string \<Rightarrow> string \<Rightarrow> int \<Rightarrow> world \<Rightarrow> (error + int) \<times> world" where
  "redis_eval_extend k token t w =
     (case issue (EvalExtend k token t) w of
        (f, w1) \<Rightarrow>
          if f then (Inl (StoreError ''unavailable''), w1)
          else (case extend_script k token t w1 of (r, w2) \<Rightarrow> (Inr r, w2)))"

text \<open>\<^verbatim>\<open>this.redis.exists(lockKey)\<close>\<close>

definition redis_exists :: "string \<Rightarrow> world \<Rightarrow> (error + int) \<times> world" where
  "redis_exists k w =
     (case issue (Exists k) w of
        (f, w1) \<Rightarrow>
          if f then (Inl (StoreError ''unavailable''), w1)
          else (Inr (cmd_exists k w1), w1))"

subsection \<open>The runtime\<close>

text \<open>
  Numbers in a template string: a natural number prints as its decimal digits.
\<close>

text \<open>The digit \<open>d\<close>, for \<open>d\<close> below 10; it is used on no other number.\<close>

definition digit :: "nat \<Rightarrow> char" where
  "digit d = ''0123456789'' ! d"

fun string_of_nat :: "nat \<Rightarrow> string" where
  "string_of_nat n =
     (if n < 10 then [digit n] else string_of_nat (n div 10) @ [digit (n mod 10)])"

declare string_of_nat.simps [simp del]

text \<open>\<^verbatim>\<open>Math.random()\<close>, printed; \<^verbatim>\<open>0\<close> once the list of coming values is used up.\<close>

definition Math_random :: "world \<Rightarrow> string \<times> world" where
  "Math_random w =
     (case randoms w of
        [] \<Rightarrow> (''0'', w)
      | r # rs \<Rightarrow> (r, w\<lparr>randoms := rs\<rparr>))"

text \<open>
  \<^verbatim>\<open>setTimeout(resolve, ms)\<close>: Node sets a delay below 1 or above 2147483647 to 1.
\<close>

definition timeout_ms :: "int \<Rightarrow> int" where
  "timeout_ms ms = (if ms < 1 \<or> 2147483647 < ms then 1 else ms)"

text \<open>\<^verbatim>\<open>sleep(ms)\<close>: the clock moves on by the delay.\<close>

definition sleep :: "int \<Rightarrow> world \<Rightarrow> world" where
  "sleep ms w = w\<lparr>now := now w + nat (timeout_ms ms), trace := trace w @ [Sleep ms]\<rparr>"

subsection \<open>The service\<close>

text \<open>
  \<^verbatim>\<open>configService.get(key, dflt)\<close> gives \<^verbatim>\<open>dflt\<close> for an unset key.
\<close>

definition config_get :: "'a option \<Rightarrow> 'a \<Rightarrow> 'a" where
  "config_get v dflt = (case v of None \<Rightarrow> dflt | Some x \<Rightarrow> x)"

text \<open>
  \<^verbatim>\<open>initializeRedis\<close>: no client when the URL is unset or empty (\<^verbatim>\<open>!redisUrl\<close>).
\<close>

definition initializeRedis :: "WorkersConfig \<Rightarrow> string option" where
  "initializeRedis cfg =
     (case cfg_redisUrl cfg of
        None \<Rightarrow> None
      | Some url \<Rightarrow> if url = [] then None else Some url)"

text \<open>The constructor.\<close>

definition new_DistributedLockService :: "WorkersConfig \<Rightarrow> DistributedLockService" where
  "new_DistributedLockService cfg =
     \<lparr> enabled = config_get (cfg_enabled cfg) False,
       redis = (if config_get (cfg_enabled cfg) False then initializeRedis cfg else None),
       defaultTtl = config_get (cfg_ttl cfg) 30000,
       defaultRetryCount = config_get (cfg_retryCount cfg) 3,
       defaultRetryDelay = config_get (cfg_retryDelay cfg) 200 \<rparr>"

text \<open>\<^verbatim>\<open>`worker:lock:${key}`\<close>\<close>

definition lockKey :: "string \<Rightarrow> string" where
  "lockKey key = ''worker:lock:'' @ key"

text \<open>\<^verbatim>\<open>options?.field\<close>: the value the caller supplied, if any.\<close>

definition supplied :: "LockOptions option \<Rightarrow> (LockOptions \<Rightarrow> int option) \<Rightarrow> int option" where
  "supplied options field = (case options of None \<Rightarrow> None | Some opts \<Rightarrow> field opts)"

text \<open>
  \<^verbatim>\<open>options?.field || dflt\<close>: the default stands in when the options or the field are
  missing, and also when the field is 0, which is falsy.
\<close>

definition or_default :: "LockOptions option \<Rightarrow> (LockOptions \<Rightarrow> int option) \<Rightarrow> int \<Rightarrow> int" where
  "or_default options field dflt =
     (case options of
        None \<Rightarrow> dflt
      | Some opts \<Rightarrow>
          (case field opts of
             None \<Rightarrow> dflt
           | Some x \<Rightarrow> if x = 0 then dflt else x))"

text \<open>\<^verbatim>\<open>`${process.pid}-${Date.now()}-${Math.random()}`\<close> and \<^verbatim>\<open>`local-${Date.now()}`\<close>\<close>

definition make_token :: "nat \<Rightarrow> nat \<Rightarrow> string \<Rightarrow> string" where
  "make_token p t r = string_of_nat p @ ''-'' @ string_of_nat t @ ''-'' @ r"

definition local_token :: "nat \<Rightarrow> string" where
  "local_token t = ''local-'' @ string_of_nat t"

text \<open>
  The loop of \<^verbatim>\<open>acquire\<close>:
  \<^verbatim>\<open>for (let attempt = 0; attempt <= retryCount; attempt++) { try { ... } catch { return null } }\<close>.
  The \<^verbatim>\<open>catch\<close> returns \<^verbatim>\<open>null\<close>; a reply other than OK sleeps when attempts remain
  and goes round again.
\<close>

function acquire_loop ::
  "string \<Rightarrow> string \<Rightarrow> int \<Rightarrow> int \<Rightarrow> int \<Rightarrow> int \<Rightarrow> world \<Rightarrow> (error + string option) \<times> world" where
  "acquire_loop lk token ttl_ms retries delay attempt w =
     (if attempt \<le> retries then
        (case redis_set lk token ttl_ms w of
           (Inl e, w1) \<Rightarrow> (Inr None, w1)
         | (Inr result, w1) \<Rightarrow>
             if result = Some ''OK'' then (Inr (Some token), w1)
             else if attempt < retries
               then acquire_loop lk token ttl_ms retries delay (attempt + 1) (sleep delay w1)
               else acquire_loop lk token ttl_ms retries delay (attempt + 1) w1)
      else (Inr None, w))"
  by pat_completeness auto
termination
  by (relation "measure (\<lambda>(lk, token, ttl_ms, retries, delay, attempt, w). nat (retries + 1 - attempt))")
     auto

declare acquire_loop.simps [simp del]

definition acquire ::
  "DistributedLockService \<Rightarrow> string \<Rightarrow> LockOptions option \<Rightarrow> world \<Rightarrow> (error + string option) \<times> world" where
  "acquire m key options w =
     (if \<not> enabled m \<or> redis m = None then (Inr (Some (local_token (now w))), w)
      else
        (case Math_random w of
           (r, w0) \<Rightarrow>
             acquire_loop (lockKey key) (make_token (pid w) (now w) r)
               (or_default options ttl (defaultTtl m))
               (or_default options retryCount (defaultRetryCount m))
               (or_default options retryDelay (defaultRetryDelay m))
               0 w0))"

definition release ::
  "DistributedLockService \<Rightarrow> string \<Rightarrow> string \<Rightarrow> world \<Rightarrow> (error + bool) \<times> world" where
  "release m key token w =
     (if \<not> enabled m \<or> redis m = None then (Inr True, w)
      else
        (case redis_eval_release (lockKey key) token w of
           (Inl e, w1) \<Rightarrow> (Inr False, w1)
         | (Inr result, w1) \<Rightarrow> if result = 1 then (Inr True, w1) else (Inr False, w1)))"

definition extend ::
  "DistributedLockService \<Rightarrow> string \<Rightarrow> string \<Rightarrow> int \<Rightarrow> world \<Rightarrow> (error + bool) \<times> world" where
  "extend m key token t w =
     (if \<not> enabled m \<or> redis m = None then (Inr True, w)
      else
        (case redis_eval_extend (lockKey key) token t w of
           (Inl e, w1) \<Rightarrow> (Inr False, w1)
         | (Inr result, w1) \<Rightarrow> if result = 1 then (Inr True, w1) else (Inr False, w1)))"

text \<open>
  \<^verbatim>\<open>withLock\<close>. The unit of work \<open>fn\<close> acts on the world and returns or throws.
  \<^verbatim>\<open>!token\<close> holds for \<^verbatim>\<open>null\<close> and for the empty string. In
  \<^verbatim>\<open>try { return await fn() } finally { await this.release(key, token) }\<close> an
  exception of the \<^verbatim>\<open>finally\<close> block would replace the outcome of the \<^verbatim>\<open>try\<close>.
\<close>

definition withLock ::
  "DistributedLockService \<Rightarrow> string \<Rightarrow> (world \<Rightarrow> (error + jsval) \<times> world) \<Rightarrow> LockOptions option
     \<Rightarrow> world \<Rightarrow> (error + jsval) \<times> world" where
  "withLock m key fn options w =
     (case acquire m key options w of
        (Inl e, w1) \<Rightarrow> (Inl e, w1)
      | (Inr None, w1) \<Rightarrow> (Inr JNull, w1)
      | (Inr (Some token), w1) \<Rightarrow>
          if token = [] then (Inr JNull, w1)
          else
            (case fn w1 of
               (outcome, w2) \<Rightarrow>
                 (case release m key token w2 of
                    (Inl e, w3) \<Rightarrow> (Inl e, w3)
                  | (Inr released, w3) \<Rightarrow> (outcome, w3))))"

text \<open>\<^verbatim>\<open>exists\<close>: the store call is awaited outside any \<^verbatim>\<open>try\<close>.\<close>

definition exists ::
  "DistributedLockService \<Rightarrow> string \<Rightarrow> world \<Rightarrow> (error + bool) \<times> world" where
  "exists m key w =
     (if \<not> enabled m \<or> redis m = None then (Inr False, w)
      else
        (case redis_exists (lockKey key) w of
           (Inl e, w1) \<Rightarrow> (Inl e, w1)
         | (Inr result, w1) \<Rightarrow> (Inr (result = 1), w1)))"


subsection \<open>Sample services and worlds\<close>

text \<open>
  A service with locking enabled and a store configured, and the service the default
  configuration gives, where locking is disabled.
\<close>

definition enabled_service :: DistributedLockService where
  "enabled_service =
     new_DistributedLockService
       \<lparr> cfg_enabled = Some True, cfg_redisUrl = Some ''redis://localhost:6379'',
         cfg_ttl = None, cfg_retryCount = None, cfg_retryDelay = None \<rparr>"

definition disabled_service :: DistributedLockService where
  "disabled_service =
     new_DistributedLockService
       \<lparr> cfg_enabled = None, cfg_redisUrl = Some ''redis://localhost:6379'',
         cfg_ttl = None, cfg_retryCount = None, cfg_retryDelay = None \<rparr>"

text \<open>A service with locking enabled whose configuration has no store URL: no client.\<close>

definition unconfigured_service :: DistributedLockService where
  "unconfigured_service =
     new_DistributedLockService
       \<lparr> cfg_enabled = Some True, cfg_redisUrl = None,
         cfg_ttl = None, cfg_retryCount = None, cfg_retryDelay = None \<rparr>"

text \<open>
  A world whose store is empty; one where another process holds the lock \<^verbatim>\<open>job\<close>
  for a long time; and one whose next store call is rejected.
\<close>

definition free_world :: world where
  "free_world =
     \<lparr> store = Map.empty, now = 5, pid = 7, randoms = [''0.25'', ''0.75''],
       faults = [], trace = [] \<rparr>"

definition held_world :: world where
  "held_world = free_world\<lparr>store := [''worker:lock:job'' \<mapsto> (''9-1-0.5'', 100000)]\<rparr>"

definition down_world :: world where
  "down_world = free_world\<lparr>faults := [True]\<rparr>"

text \<open>
  Worlds whose second store call is rejected, with the lock free and with the lock held.
\<close>

definition flaky_world :: world where
  "flaky_world = free_world\<lparr>faults := [False, True]\<rparr>"

definition held_flaky_world :: world where
  "held_flaky_world = held_world\<lparr>faults := [False, True]\<rparr>"

text \<open>
  The options \<^verbatim>\<open>{ ttl: 1000, retryCount: 2, retryDelay: 50 }\<close>,
  \<^verbatim>\<open>{ retryDelay: 2147483648 }\<close> and \<^verbatim>\<open>{ retryCount: 0 }\<close>.
\<close>

definition two_retries :: LockOptions where
  "two_retries = \<lparr> ttl = Some 1000, retryCount = Some 2, retryDelay = Some 50 \<rparr>"

definition long_delay :: LockOptions where
  "long_delay = \<lparr> ttl = None, retryCount = None, retryDelay = Some 2147483648 \<rparr>"

definition no_retry :: LockOptions where
  "no_retry = \<lparr> ttl = None, retryCount = Some 0, retryDelay = None \<rparr>"

text \<open>
  Units of work, each after a sleep of 1 ms: one returns \<^verbatim>\<open>null\<close>, one returns
  nothing (\<^verbatim>\<open>undefined\<close>), one throws.
\<close>

definition work_void :: "world \<Rightarrow> (error + jsval) \<times> world" where
  "work_void w = (Inr JUndefined, sleep 1 w)"

definition work_null :: "world \<Rightarrow> (error + jsval) \<times> world" where
  "work_null w = (Inr JNull, sleep 1 w)"

definition work_throws :: "world \<Rightarrow> (error + jsval) \<times> world" where
  "work_throws w = (Inl (WorkError ''boom''), sleep 1 w)"

section \<open>Properties\<close>

subsection \<open>The store and the client\<close>

lemma enabled_service_simps:
  "enabled enabled_service" "redis enabled_service \<noteq> None"
  "defaultTtl enabled_service = 30000" "defaultRetryCount enabled_service = 3"
  "defaultRetryDelay enabled_service = 200"
  by (simp_all add: enabled_service_def new_DistributedLockService_def config_get_def
      initializeRedis_def)

lemma disabled_service_simps:
  "\<not> enabled disabled_service" "redis disabled_service = None"
  by (simp_all add: disabled_service_def new_DistributedLockService_def config_get_def)

lemma unconfigured_service_simps:
  "enabled unconfigured_service" "redis unconfigured_service = None"
  by (simp_all add: unconfigured_service_def new_DistributedLockService_def config_get_def
      initializeRedis_def)

lemma live_issued: "live (w\<lparr>faults := fs, trace := es\<rparr>) k = live w k"
  by (simp add: live_def split: option.splits)

lemma redis_set_OK:
  assumes "redis_set k v t w = (Inr (Some ''OK''), w')"
  shows "live w k = None \<and> 0 < t \<and>
     w' = w\<lparr>faults := tl (faults w), trace := trace w @ [Call (Set k v t)],
            store := (store w)(k \<mapsto> (v, int (now w) + t))\<rparr>"
  using assms
  by (auto simp: redis_set_def issue_def cmd_set_px_nx_def live_issued
      split: if_splits option.splits)

lemma redis_set_not_OK:
  assumes "redis_set k v t w = (r, w')" and "r \<noteq> Inr (Some ''OK'')"
  shows "w' = w\<lparr>faults := tl (faults w), trace := trace w @ [Call (Set k v t)]\<rparr>"
  using assms
  by (auto simp: redis_set_def issue_def cmd_set_px_nx_def split: if_splits option.splits)

lemma redis_set_held:
  assumes "live w k = Some u" and "0 < t" and "faults w = [] \<or> \<not> hd (faults w)"
  shows "redis_set k v t w = (Inr None, w\<lparr>faults := tl (faults w), trace := trace w @ [Call (Set k v t)]\<rparr>)"
  using assms
  by (auto simp: redis_set_def issue_def cmd_set_px_nx_def live_issued)

lemma redis_set_fault:
  assumes "faults w = True # fs"
  shows "redis_set k v t w = (Inl (StoreError ''unavailable''), w\<lparr>faults := fs, trace := trace w @ [Call (Set k v t)]\<rparr>)"
  using assms by (auto simp: redis_set_def issue_def)

lemma acquire_loop_success:
  "acquire_loop lk token t rc d a w = (Inr (Some x), w') \<Longrightarrow>
     x = token \<and>
     (\<exists>wp. store wp = store w \<and> now w \<le> now wp \<and>
        redis_set lk token t wp = (Inr (Some ''OK''), w'))"
proof (induction lk token t rc d a w rule: acquire_loop.induct)
  case (1 lk token t rc d a w)
  show ?case
  proof (cases "a \<le> rc")
    case False
    with "1.prems" show ?thesis by (simp add: acquire_loop.simps)
  next
    case True
    obtain r w1 where rs: "redis_set lk token t w = (r, w1)" by (cases "redis_set lk token t w")
    show ?thesis
    proof (cases r)
      case (Inl e)
      with True rs "1.prems" show ?thesis by (simp add: acquire_loop.simps)
    next
      case (Inr result)
      show ?thesis
      proof (cases "result = Some ''OK''")
        case ok: True
        with True rs Inr "1.prems" show ?thesis
          by (auto simp: acquire_loop.simps)
      next
        case nok: False
        show ?thesis
        proof (cases "a < rc")
          case lt: True
          from True rs Inr nok lt "1.prems"
          have "acquire_loop lk token t rc d (a + 1) (sleep d w1) = (Inr (Some x), w')"
            by (simp add: acquire_loop.simps)
          with "1.IH"(1)[OF True rs[symmetric] Inr nok lt] redis_set_not_OK[OF rs] Inr nok
          show ?thesis by (auto simp: sleep_def)
        next
          case ge: False
          from True rs Inr nok ge "1.prems"
          have "acquire_loop lk token t rc d (a + 1) w1 = (Inr (Some x), w')"
            by (simp add: acquire_loop.simps)
          with "1.IH"(2)[OF True rs[symmetric] Inr nok ge] redis_set_not_OK[OF rs] Inr nok
          show ?thesis by auto
        qed
      qed
    qed
  qed
qed


lemma timeout_ms_pos: "0 < timeout_ms d"
  by (simp add: timeout_ms_def)

lemma live_held: "store w k = Some (v, e) \<Longrightarrow> int (now w) < e \<Longrightarrow> live w k = Some v"
  by (simp add: live_def)

lemma acquire_loop_contended:
  assumes "0 < t"
  shows "store w lk = Some (v, e) \<Longrightarrow> a + int j \<le> rc \<Longrightarrow>
     j = 0 \<or> int (now w) + (int j - 1) * timeout_ms d < e \<Longrightarrow>
     True \<notin> set (take j (faults w)) \<Longrightarrow>
     acquire_loop lk token t rc d a w =
       acquire_loop lk token t rc d (a + int j)
         (w\<lparr>now := now w + j * nat (timeout_ms d),
            faults := drop j (faults w),
            trace := trace w @ concat (replicate j [Call (Set lk token t), Sleep d])\<rparr>)"
proof (induction j arbitrary: a w)
  case 0
  then show ?case by simp
next
  case (Suc j)
  let ?w1 = "w\<lparr>faults := tl (faults w), trace := trace w @ [Call (Set lk token t)]\<rparr>"
  have pos: "0 < timeout_ms d" by (rule timeout_ms_pos)
  have "0 \<le> int j * timeout_ms d" using pos by simp
  with Suc.prems(3) have held: "int (now w) < e" by simp
  have nofault: "faults w = [] \<or> \<not> hd (faults w)"
    using Suc.prems(4) by (cases "faults w") auto
  have rs: "redis_set lk token t w = (Inr None, ?w1)"
    by (rule redis_set_held [OF live_held [OF Suc.prems(1) held] assms nofault])
  have step: "acquire_loop lk token t rc d a w =
      acquire_loop lk token t rc d (a + 1) (sleep d ?w1)"
    using Suc.prems(2) rs by (subst acquire_loop.simps) simp
  have st: "store (sleep d ?w1) lk = Some (v, e)"
    using Suc.prems(1) by (simp add: sleep_def)
  have le: "a + 1 + int j \<le> rc" using Suc.prems(2) by simp
  have nat_t: "int (nat (timeout_ms d)) = timeout_ms d" using pos by simp
  have h: "j = 0 \<or> int (now (sleep d ?w1)) + (int j - 1) * timeout_ms d < e"
    using Suc.prems(3) nat_t by (simp add: sleep_def algebra_simps)
  have nf: "True \<notin> set (take j (faults (sleep d ?w1)))"
    using Suc.prems(4) by (cases "faults w") (auto simp: sleep_def)
  have "acquire_loop lk token t rc d (a + 1) (sleep d ?w1) =
      acquire_loop lk token t rc d (a + 1 + int j)
        ((sleep d ?w1)\<lparr>now := now (sleep d ?w1) + j * nat (timeout_ms d),
            faults := drop j (faults (sleep d ?w1)),
            trace := trace (sleep d ?w1) @
              concat (replicate j [Call (Set lk token t), Sleep d])\<rparr>)"
    by (rule Suc.IH [OF st le h nf])
  also have "(sleep d ?w1)\<lparr>now := now (sleep d ?w1) + j * nat (timeout_ms d),
            faults := drop j (faults (sleep d ?w1)),
            trace := trace (sleep d ?w1) @
              concat (replicate j [Call (Set lk token t), Sleep d])\<rparr> =
         w\<lparr>now := now w + Suc j * nat (timeout_ms d),
            faults := drop (Suc j) (faults w),
            trace := trace w @ concat (replicate (Suc j) [Call (Set lk token t), Sleep d])\<rparr>"
    by (simp add: sleep_def drop_Suc)
  finally show ?case using step by (simp add: add.assoc)
qed


lemma acquire_loop_last:
  assumes "redis_set lk token t w = (Inr None, w1)"
  shows "acquire_loop lk token t rc d rc w = (Inr None, w1)"
proof -
  have "acquire_loop lk token t rc d rc w = acquire_loop lk token t rc d (rc + 1) w1"
    using assms by (subst acquire_loop.simps) simp
  also have "\<dots> = (Inr None, w1)"
    by (subst acquire_loop.simps) simp
  finally show ?thesis .
qed

lemma acquire_loop_all_contended:
  assumes t: "0 < t" and st: "store w lk = Some (v, e)" and rc: "0 \<le> rc"
    and held: "int (now w) + rc * timeout_ms d < e"
    and nf: "True \<notin> set (take (Suc (nat rc)) (faults w))"
  shows "acquire_loop lk token t rc d 0 w =
       (Inr None,
        w\<lparr>now := now w + nat rc * nat (timeout_ms d),
          faults := drop (Suc (nat rc)) (faults w),
          trace := trace w @ concat (replicate (nat rc) [Call (Set lk token t), Sleep d]) @
            [Call (Set lk token t)]\<rparr>)"
proof -
  let ?j = "nat rc"
  let ?wj = "w\<lparr>now := now w + ?j * nat (timeout_ms d),
            faults := drop ?j (faults w),
            trace := trace w @ concat (replicate ?j [Call (Set lk token t), Sleep d])\<rparr>"
  have pos: "0 < timeout_ms d" by (rule timeout_ms_pos)
  have h: "?j = 0 \<or> int (now w) + (int ?j - 1) * timeout_ms d < e"
    using held rc pos by (simp add: algebra_simps)
  have nf': "True \<notin> set (take ?j (faults w))"
    using nf set_take_subset_set_take [of "nat rc" "Suc (nat rc)" "faults w"] by auto
  have le: "0 + int ?j \<le> rc" using rc by simp
  have "acquire_loop lk token t rc d 0 w = acquire_loop lk token t rc d (0 + int ?j) ?wj"
    by (rule acquire_loop_contended [OF t st le h nf'])
  also have "\<dots> = acquire_loop lk token t rc d rc ?wj" using rc by simp
  finally have first: "acquire_loop lk token t rc d 0 w = acquire_loop lk token t rc d rc ?wj" .
  have "int (now ?wj) = int (now w) + rc * timeout_ms d"
    using rc pos by simp
  with held have heldj: "int (now ?wj) < e" by simp
  have stj: "store ?wj lk = Some (v, e)" using st by simp
  have nfj: "faults ?wj = [] \<or> \<not> hd (faults ?wj)"
  proof (cases "?j < length (faults w)")
    case True
    then have "faults w ! ?j \<in> set (take (Suc ?j) (faults w))"
      by (simp add: take_Suc_conv_app_nth)
    with nf have "\<not> faults w ! ?j" by metis
    with True show ?thesis by (simp add: hd_drop_conv_nth)
  next
    case False
    then show ?thesis by simp
  qed
  have rs: "redis_set lk token t ?wj =
      (Inr None, ?wj\<lparr>faults := tl (faults ?wj), trace := trace ?wj @ [Call (Set lk token t)]\<rparr>)"
    by (rule redis_set_held [OF live_held [OF stj heldj] t nfj])
  have "acquire_loop lk token t rc d rc ?wj =
      (Inr None, ?wj\<lparr>faults := tl (faults ?wj), trace := trace ?wj @ [Call (Set lk token t)]\<rparr>)"
    by (rule acquire_loop_last [OF rs])
  with first have "acquire_loop lk token t rc d 0 w =
      (Inr None, ?wj\<lparr>faults := tl (faults ?wj), trace := trace ?wj @ [Call (Set lk token t)]\<rparr>)"
    by (rule trans)
  also have "?wj\<lparr>faults := tl (faults ?wj), trace := trace ?wj @ [Call (Set lk token t)]\<rparr> =
      w\<lparr>now := now w + nat rc * nat (timeout_ms d),
          faults := drop (Suc (nat rc)) (faults w),
          trace := trace w @ concat (replicate (nat rc) [Call (Set lk token t), Sleep d]) @
            [Call (Set lk token t)]\<rparr>"
    by (simp add: drop_Suc tl_drop)
  finally show ?thesis .
qed

lemma acquire_loop_fault:
  assumes a: "a \<le> rc" and f: "faults w = True # fs"
  shows "acquire_loop lk token t rc d a w =
      (Inr None, w\<lparr>faults := fs, trace := trace w @ [Call (Set lk token t)]\<rparr>)"
  using a redis_set_fault [OF f] by (subst acquire_loop.simps) simp


lemma acquire_loop_no_throw: "\<exists>r. fst (acquire_loop lk token t rc d a w) = Inr r"
proof (induction lk token t rc d a w rule: acquire_loop.induct)
  case (1 lk token t rc d a w)
  show ?case
  proof (cases "a \<le> rc")
    case False
    then show ?thesis by (simp add: acquire_loop.simps)
  next
    case True
    obtain r w1 where rs: "redis_set lk token t w = (r, w1)" by (cases "redis_set lk token t w")
    show ?thesis
    proof (cases r)
      case (Inl e)
      with True rs show ?thesis by (simp add: acquire_loop.simps)
    next
      case (Inr result)
      show ?thesis
      proof (cases "result = Some ''OK''")
        case ok: True
        with True rs Inr show ?thesis by (simp add: acquire_loop.simps)
      next
        case nok: False
        show ?thesis
        proof (cases "a < rc")
          case lt: True
          from "1.IH"(1)[OF True rs[symmetric] Inr nok lt] True rs Inr nok lt
          show ?thesis by (subst acquire_loop.simps) simp
        next
          case ge: False
          from "1.IH"(2)[OF True rs[symmetric] Inr nok ge] True rs Inr nok ge
          show ?thesis by (subst acquire_loop.simps) simp
        qed
      qed
    qed
  qed
qed

lemma acquire_no_throw: "\<exists>r. fst (acquire m key options w) = Inr r"
  using acquire_loop_no_throw by (simp add: acquire_def split: prod.splits)

lemma release_no_throw: "\<exists>b. fst (release m key token w) = Inr b"
  by (auto simp: release_def split: prod.splits sum.splits)

lemma extend_no_throw: "\<exists>b. fst (extend m key token t w) = Inr b"
  by (auto simp: extend_def split: prod.splits sum.splits)

lemma redis_eval_release_fault:
  "faults w = True # fs \<Longrightarrow> fst (redis_eval_release k token w) = Inl (StoreError ''unavailable'')"
  by (simp add: redis_eval_release_def issue_def)

lemma redis_eval_extend_fault:
  "faults w = True # fs \<Longrightarrow> fst (redis_eval_extend k token t w) = Inl (StoreError ''unavailable'')"
  by (simp add: redis_eval_extend_def issue_def)

lemma Math_random_fields:
  "store (snd (Math_random w)) = store w"
  "now (snd (Math_random w)) = now w"
  "faults (snd (Math_random w)) = faults w"
  "trace (snd (Math_random w)) = trace w"
  by (simp_all add: Math_random_def split: list.splits)

lemma release_enabled:
  assumes "enabled m" and "redis m \<noteq> None"
  shows "release m key token w =
     (let w1 = w\<lparr>faults := tl (faults w), trace := trace w @ [Call (EvalRelease (lockKey key) token)]\<rparr>
      in if faults w \<noteq> [] \<and> hd (faults w) then (Inr False, w1)
         else if live w (lockKey key) = Some token
           then (Inr True, w1\<lparr>store := (store w)(lockKey key := None)\<rparr>)
           else (Inr False, w1))"
  using assms
  by (auto simp: release_def redis_eval_release_def issue_def release_script_def cmd_get_def
      cmd_del_def live_issued Let_def)

lemma extend_enabled:
  assumes "enabled m" and "redis m \<noteq> None"
  shows "extend m key token t w =
     (let w1 = w\<lparr>faults := tl (faults w), trace := trace w @ [Call (EvalExtend (lockKey key) token t)]\<rparr>
      in if faults w \<noteq> [] \<and> hd (faults w) then (Inr False, w1)
         else if live w (lockKey key) = Some token
           then (Inr True, w1\<lparr>store := (store w)(lockKey key \<mapsto> (token, int (now w) + t))\<rparr>)
           else (Inr False, w1))"
  using assms
  by (auto simp: extend_def redis_eval_extend_def issue_def extend_script_def cmd_get_def
      cmd_pexpire_def live_issued Let_def)

subsection \<open>Release and extend\<close>

text \<open>
  C2, as the code has it. With locking enabled and a store client present,
  \<^verbatim>\<open>release\<close> and \<^verbatim>\<open>extend\<close> return true only if the token is the value stored
  live at the namespaced key; then release deletes the key and extend sets the expiry to
  now plus the new ttl. When the token is not the stored value (mismatch, or no live
  key) both return false and leave the store and the clock as they were. Each makes
  exactly one store call, the script. With locking disabled or no store client, both
  return true for every key and token and leave the world, the trace of store calls
  included, as it was.
\<close>

theorem release_extend_owner_gated:
  "(enabled m \<and> redis m \<noteq> None \<longrightarrow>
     (fst (release m key token w) = Inr True \<longrightarrow>
        live w (lockKey key) = Some token \<and>
        store (snd (release m key token w)) = (store w)(lockKey key := None)) \<and>
     (live w (lockKey key) \<noteq> Some token \<longrightarrow>
        fst (release m key token w) = Inr False \<and>
        store (snd (release m key token w)) = store w \<and>
        now (snd (release m key token w)) = now w) \<and>
     trace (snd (release m key token w)) = trace w @ [Call (EvalRelease (lockKey key) token)] \<and>
     (fst (extend m key token t w) = Inr True \<longrightarrow>
        live w (lockKey key) = Some token \<and>
        store (snd (extend m key token t w)) = (store w)(lockKey key \<mapsto> (token, int (now w) + t))) \<and>
     (live w (lockKey key) \<noteq> Some token \<longrightarrow>
        fst (extend m key token t w) = Inr False \<and>
        store (snd (extend m key token t w)) = store w \<and>
        now (snd (extend m key token t w)) = now w) \<and>
     trace (snd (extend m key token t w)) = trace w @ [Call (EvalExtend (lockKey key) token t)]) \<and>
   (\<not> enabled m \<or> redis m = None \<longrightarrow>
      release m key token w = (Inr True, w) \<and> extend m key token t w = (Inr True, w))"
proof -
  have disabled: "release m key token w = (Inr True, w) \<and> extend m key token t w = (Inr True, w)"
    if "\<not> enabled m \<or> redis m = None"
    using that by (auto simp: release_def extend_def)
  show ?thesis
  proof (cases "enabled m \<and> redis m \<noteq> None")
    case True
    then have e: "enabled m" and r: "redis m \<noteq> None" by simp_all
    show ?thesis
      by (simp add: release_enabled [OF e r] extend_enabled [OF e r] Let_def e r)
  next
    case False
    with disabled show ?thesis by blast
  qed
qed

theorem release_extend_owner_gated_witness:
  "enabled enabled_service \<and> redis enabled_service \<noteq> None \<and>
   live held_world (lockKey ''job'') \<noteq> Some ''wrong'' \<and>
   fst (release enabled_service ''job'' ''wrong'' held_world) = Inr False \<and>
   store (snd (release enabled_service ''job'' ''wrong'' held_world)) = store held_world \<and>
   fst (extend enabled_service ''job'' ''wrong'' 5000 held_world) = Inr False \<and>
   store (snd (extend enabled_service ''job'' ''wrong'' 5000 held_world)) = store held_world \<and>
   fst (release enabled_service ''job'' ''9-1-0.5'' held_world) = Inr True \<and>
   live held_world (lockKey ''job'') = Some ''9-1-0.5'' \<and>
   store (snd (release enabled_service ''job'' ''9-1-0.5'' held_world)) =
     (store held_world)(lockKey ''job'' := None) \<and>
   fst (extend enabled_service ''job'' ''9-1-0.5'' 5000 held_world) = Inr True \<and>
   store (snd (extend enabled_service ''job'' ''9-1-0.5'' 5000 held_world)) =
     (store held_world)(lockKey ''job'' \<mapsto> (''9-1-0.5'', int (now held_world) + 5000)) \<and>
   \<not> enabled disabled_service \<and>
   release disabled_service ''job'' ''wrong'' held_world = (Inr True, held_world) \<and>
   extend disabled_service ''job'' ''wrong'' 5000 held_world = (Inr True, held_world) \<and>
   redis unconfigured_service = None \<and>
   release unconfigured_service ''job'' ''wrong'' held_world = (Inr True, held_world) \<and>
   extend unconfigured_service ''job'' ''wrong'' 5000 held_world = (Inr True, held_world)"
proof -
  note e = enabled_service_simps(1) and r = enabled_service_simps(2)
  have l: "live held_world (lockKey ''job'') = Some ''9-1-0.5''"
    by (simp add: live_def held_world_def free_world_def lockKey_def)
  then have n: "live held_world (lockKey ''job'') \<noteq> Some ''wrong''" by simp
  have f: "faults held_world = []" by (simp add: held_world_def free_world_def)
  have t: "fst (release enabled_service ''job'' ''9-1-0.5'' held_world) = Inr True"
    by (simp add: release_enabled [OF e r] l f Let_def)
  have x: "fst (extend enabled_service ''job'' ''9-1-0.5'' 5000 held_world) = Inr True"
    by (simp add: extend_enabled [OF e r] l f Let_def)
  from release_extend_owner_gated [of enabled_service "''job''" "''wrong''" held_world 5000]
    e r n
  have 1: "fst (release enabled_service ''job'' ''wrong'' held_world) = Inr False \<and>
     store (snd (release enabled_service ''job'' ''wrong'' held_world)) = store held_world \<and>
     fst (extend enabled_service ''job'' ''wrong'' 5000 held_world) = Inr False \<and>
     store (snd (extend enabled_service ''job'' ''wrong'' 5000 held_world)) = store held_world"
    by simp
  from release_extend_owner_gated [of enabled_service "''job''" "''9-1-0.5''" held_world 5000]
    e r t x
  have 2: "store (snd (release enabled_service ''job'' ''9-1-0.5'' held_world)) =
       (store held_world)(lockKey ''job'' := None) \<and>
     store (snd (extend enabled_service ''job'' ''9-1-0.5'' 5000 held_world)) =
       (store held_world)(lockKey ''job'' \<mapsto> (''9-1-0.5'', int (now held_world) + 5000))"
    by simp
  from release_extend_owner_gated [of disabled_service "''job''" "''wrong''" held_world 5000]
    disabled_service_simps(1)
  have 3: "release disabled_service ''job'' ''wrong'' held_world = (Inr True, held_world) \<and>
     extend disabled_service ''job'' ''wrong'' 5000 held_world = (Inr True, held_world)"
    by simp
  from release_extend_owner_gated [of unconfigured_service "''job''" "''wrong''" held_world 5000]
    unconfigured_service_simps(2)
  have 4: "release unconfigured_service ''job'' ''wrong'' held_world = (Inr True, held_world) \<and>
     extend unconfigured_service ''job'' ''wrong'' 5000 held_world = (Inr True, held_world)"
    by simp
  from e r n l t x 1 2 3 4 disabled_service_simps(1) unconfigured_service_simps(2)
  show ?thesis by blast
qed

text \<open>
  C2 as stated fails where locking is disabled or no store client is configured: release
  and extend return true for a token that is not the stored one, without looking at the
  store.
\<close>

theorem release_extend_disabled_counterexample:
  "live held_world (lockKey ''job'') = Some ''9-1-0.5'' \<and>
   release disabled_service ''job'' ''wrong'' held_world = (Inr True, held_world) \<and>
   extend disabled_service ''job'' ''wrong'' 5000 held_world = (Inr True, held_world) \<and>
   release unconfigured_service ''job'' ''wrong'' held_world = (Inr True, held_world) \<and>
   extend unconfigured_service ''job'' ''wrong'' 5000 held_world = (Inr True, held_world)"
  by (simp add: release_def extend_def disabled_service_simps unconfigured_service_simps
      live_def held_world_def free_world_def lockKey_def)

subsection \<open>Acquire\<close>

lemma string_of_nat_nonempty: "string_of_nat n \<noteq> []"
  by (subst string_of_nat.simps) simp

lemma make_token_nonempty: "make_token p t r \<noteq> []"
  by (simp add: make_token_def string_of_nat_nonempty)

lemma local_token_nonempty: "local_token t \<noteq> []"
  by (simp add: local_token_def)

lemma acquire_enabled:
  assumes "enabled m" and "redis m \<noteq> None"
  shows "acquire m key options w =
     acquire_loop (lockKey key) (make_token (pid w) (now w) (fst (Math_random w)))
       (or_default options ttl (defaultTtl m))
       (or_default options retryCount (defaultRetryCount m))
       (or_default options retryDelay (defaultRetryDelay m))
       0 (snd (Math_random w))"
  using assms by (auto simp: acquire_def split: prod.splits)

lemma acquire_disabled:
  assumes "\<not> enabled m \<or> redis m = None"
  shows "acquire m key options w = (Inr (Some (local_token (now w))), w)"
  using assms by (auto simp: acquire_def)

lemma acquire_token_nonempty:
  assumes "acquire m key options w = (Inr (Some token), w')"
  shows "token \<noteq> []"
proof (cases "enabled m \<and> redis m \<noteq> None")
  case True
  with assms acquire_loop_success show ?thesis
    by (metis acquire_enabled make_token_nonempty)
next
  case False
  with assms show ?thesis
    by (auto simp: acquire_def local_token_nonempty)
qed

lemma acquire_loop_after_expiry:
  assumes "store w lk = Some (v, e)"
    and "acquire_loop lk token t rc d a w = (Inr (Some x), w')"
  shows "e \<le> int (now w')"
proof -
  from acquire_loop_success [OF assms(2)] obtain wp where
    st: "store wp = store w" and rs: "redis_set lk token t wp = (Inr (Some ''OK''), w')"
    by blast
  from redis_set_OK [OF rs] have l: "live wp lk = None" and n: "now w' = now wp" by simp_all
  from l st assms(1) have "\<not> int (now wp) < e"
    by (simp add: live_def split: if_splits)
  with n show ?thesis by simp
qed

text \<open>
  C1, as the code has it. With locking enabled and a store client present, an acquire
  that returns a token made its last store call, the set-if-absent, on a world with the
  store it started from and a clock not earlier, in which the store held no live entry
  for the namespaced key (none, or one expired by then); that call installed exactly
  the new token, live, with its expiry time. While that entry stays in the store, an acquire
  of the same key by any enabled service, with any options and from any world, succeeds
  only once the clock has reached the expiry time: two holders at once are impossible.
  The service keeps no state: the store alone decides.
\<close>

theorem acquire_mutual_exclusion:
  assumes "enabled m" and "redis m \<noteq> None"
    and "acquire m key options w = (Inr (Some token), w')"
  shows "\<exists>wp e.
      store wp = store w \<and> now w \<le> now wp \<and> live wp (lockKey key) = None \<and>
      redis_set (lockKey key) token (or_default options ttl (defaultTtl m)) wp =
        (Inr (Some ''OK''), w') \<and>
      store w' (lockKey key) = Some (token, e) \<and> int (now w') < e \<and>
      live w' (lockKey key) = Some token \<and>
      (\<forall>m2 options2 w2 token2 w2'.
         enabled m2 \<and> redis m2 \<noteq> None \<and> store w2 (lockKey key) = Some (token, e) \<and>
         acquire m2 key options2 w2 = (Inr (Some token2), w2') \<longrightarrow> e \<le> int (now w2'))"
proof -
  let ?t = "or_default options ttl (defaultTtl m)"
  from assms have loop: "acquire_loop (lockKey key) (make_token (pid w) (now w) (fst (Math_random w)))
       ?t (or_default options retryCount (defaultRetryCount m))
       (or_default options retryDelay (defaultRetryDelay m)) 0 (snd (Math_random w)) =
       (Inr (Some token), w')"
    by (simp add: acquire_enabled)
  from acquire_loop_success [OF loop] obtain wp where
    tok: "token = make_token (pid w) (now w) (fst (Math_random w))"
    and sw: "store wp = store (snd (Math_random w))"
    and nw: "now (snd (Math_random w)) \<le> now wp"
    and rs: "redis_set (lockKey key) token ?t wp = (Inr (Some ''OK''), w')"
    by blast
  from sw nw have sw': "store wp = store w" and nw': "now w \<le> now wp"
    by (simp_all add: Math_random_fields)
  from redis_set_OK [OF rs] have l: "live wp (lockKey key) = None" and t: "0 < ?t"
    and w': "w' = wp\<lparr>faults := tl (faults wp), trace := trace wp @ [Call (Set (lockKey key) token ?t)],
            store := (store wp)(lockKey key \<mapsto> (token, int (now wp) + ?t))\<rparr>"
    by simp_all
  let ?e = "int (now wp) + ?t"
  have st: "store w' (lockKey key) = Some (token, ?e)" by (simp add: w')
  have lt: "int (now w') < ?e" using t by (simp add: w')
  have lv: "live w' (lockKey key) = Some token" using st lt by (simp add: live_def)
  have ex: "\<forall>m2 options2 w2 token2 w2'.
         enabled m2 \<and> redis m2 \<noteq> None \<and> store w2 (lockKey key) = Some (token, ?e) \<and>
         acquire m2 key options2 w2 = (Inr (Some token2), w2') \<longrightarrow> ?e \<le> int (now w2')"
  proof (intro allI impI, elim conjE)
    fix m2 options2 w2 token2 w2'
    assume e2: "enabled m2" and r2: "redis m2 \<noteq> None"
      and s2: "store w2 (lockKey key) = Some (token, ?e)"
      and a2: "acquire m2 key options2 w2 = (Inr (Some token2), w2')"
    from s2 have s2': "store (snd (Math_random w2)) (lockKey key) = Some (token, ?e)"
      by (simp add: Math_random_fields)
    from a2 show "?e \<le> int (now w2')"
      unfolding acquire_enabled [OF e2 r2] by (rule acquire_loop_after_expiry [OF s2'])
  qed
  from sw' nw' l rs st lt lv ex show ?thesis by blast
qed


lemmas eval_defs =
  acquire_def release_def extend_def withLock_def exists_def
  enabled_service_def disabled_service_def new_DistributedLockService_def config_get_def
  initializeRedis_def free_world_def held_world_def down_world_def
  Math_random_def acquire_loop.simps redis_set_def redis_eval_release_def
  redis_eval_extend_def redis_exists_def issue_def cmd_set_px_nx_def cmd_get_def cmd_del_def
  cmd_pexpire_def cmd_exists_def release_script_def extend_script_def live_def or_default_def
  make_token_def local_token_def lockKey_def digit_def string_of_nat.simps sleep_def
  timeout_ms_def

lemma acquire_free_world:
  "acquire enabled_service ''job'' None free_world =
     (Inr (Some ''7-5-0.25''),
      free_world\<lparr>randoms := [''0.75''], faults := [],
        trace := [Call (Set ''worker:lock:job'' ''7-5-0.25'' 30000)],
        store := [''worker:lock:job'' \<mapsto> (''7-5-0.25'', 30005)]\<rparr>)"
  by (simp add: eval_defs)

theorem acquire_mutual_exclusion_witness:
  "enabled enabled_service \<and> redis enabled_service \<noteq> None \<and>
   fst (acquire enabled_service ''job'' None free_world) = Inr (Some ''7-5-0.25'') \<and>
   live (snd (acquire enabled_service ''job'' None free_world)) (lockKey ''job'') =
     Some ''7-5-0.25'' \<and>
   (\<exists>wp. live wp (lockKey ''job'') = None \<and>
      redis_set (lockKey ''job'') ''7-5-0.25'' 30000 wp =
        (Inr (Some ''OK''), snd (acquire enabled_service ''job'' None free_world))) \<and>
   fst (acquire enabled_service ''job'' None
          ((snd (acquire enabled_service ''job'' None free_world))\<lparr>now := 40000\<rparr>)) =
     Inr (Some ''7-40000-0.75'') \<and>
   (30005::int) \<le> int (now (snd (acquire enabled_service ''job'' None
          ((snd (acquire enabled_service ''job'' None free_world))\<lparr>now := 40000\<rparr>))))"
proof -
  note e = enabled_service_simps(1) and r = enabled_service_simps(2)
  let ?w' = "snd (acquire enabled_service ''job'' None free_world)"
  let ?w2 = "?w'\<lparr>now := 40000\<rparr>"
  have a: "acquire enabled_service ''job'' None free_world = (Inr (Some ''7-5-0.25''), ?w')"
    by (simp add: acquire_free_world)
  have t: "or_default None ttl (defaultTtl enabled_service) = 30000"
    by (simp add: or_default_def enabled_service_simps)
  have s: "store ?w' (lockKey ''job'') = Some (''7-5-0.25'', 30005)"
    by (simp add: acquire_free_world lockKey_def)
  have f2: "fst (acquire enabled_service ''job'' None ?w2) = Inr (Some ''7-40000-0.75'')"
    by (simp add: acquire_free_world) (simp add: eval_defs)
  then have a2: "acquire enabled_service ''job'' None ?w2 =
      (Inr (Some ''7-40000-0.75''), snd (acquire enabled_service ''job'' None ?w2))"
    by (simp add: prod_eq_iff)
  from acquire_mutual_exclusion [OF e r a] obtain wp ex where
    1: "live wp (lockKey ''job'') = None"
    and 2: "redis_set (lockKey ''job'') ''7-5-0.25'' 30000 wp = (Inr (Some ''OK''), ?w')"
    and 3: "store ?w' (lockKey ''job'') = Some (''7-5-0.25'', ex)"
    and 4: "live ?w' (lockKey ''job'') = Some ''7-5-0.25''"
    and 5: "\<forall>m2 options2 w2 token2 w2'.
         enabled m2 \<and> redis m2 \<noteq> None \<and> store w2 (lockKey ''job'') = Some (''7-5-0.25'', ex) \<and>
         acquire m2 ''job'' options2 w2 = (Inr (Some token2), w2') \<longrightarrow> ex \<le> int (now w2')"
    unfolding t by blast
  from 3 s have ex: "ex = 30005" by simp
  have s2: "store ?w2 (lockKey ''job'') = Some (''7-5-0.25'', ex)" using 3 by simp
  from 5 e r s2 a2 have "ex \<le> int (now (snd (acquire enabled_service ''job'' None ?w2)))"
    by blast
  with ex have le: "(30005::int) \<le> int (now (snd (acquire enabled_service ''job'' None ?w2)))"
    by simp
  have f1: "fst (acquire enabled_service ''job'' None free_world) = Inr (Some ''7-5-0.25'')"
    by (simp add: acquire_free_world)
  from 1 2 have ex6: "\<exists>wp. live wp (lockKey ''job'') = None \<and>
      redis_set (lockKey ''job'') ''7-5-0.25'' 30000 wp = (Inr (Some ''OK''), ?w')"
    by blast
  from e r f1 4 ex6 f2 le show ?thesis by blast
qed

text \<open>
  C1 as stated fails where locking is disabled: acquire returns a local token although
  the store holds a live entry for the key, and leaves the world as it was.
\<close>

theorem acquire_disabled_counterexample:
  "live held_world (lockKey ''job'') = Some ''9-1-0.5'' \<and>
   acquire disabled_service ''job'' None held_world = (Inr (Some ''local-5''), held_world)"
  by (simp add: acquire_def disabled_service_simps live_def held_world_def free_world_def
      lockKey_def local_token_def digit_def string_of_nat.simps)

subsection \<open>Store faults\<close>

lemma acquire_fault_first:
  assumes "enabled m" and "redis m \<noteq> None" and "faults w = True # fs"
  shows "fst (acquire m key options w) = Inr None"
proof (cases "0 \<le> or_default options retryCount (defaultRetryCount m)")
  case True
  have "faults (snd (Math_random w)) = True # fs"
    using assms(3) by (simp add: Math_random_fields)
  from acquire_loop_fault [OF True this] show ?thesis
    by (simp add: acquire_enabled [OF assms(1,2)])
next
  case False
  then show ?thesis
    by (simp add: acquire_enabled [OF assms(1,2)] acquire_loop.simps)
qed

text \<open>
  C8. Acquire, release and extend never throw: whatever the store does, each returns a
  value. Whatever error the store call raises, the loop of acquire returns
  \<^verbatim>\<open>null\<close> at the attempt that met it, and release and extend return false. In
  particular, when the next store call is rejected, acquire returns \<^verbatim>\<open>null\<close> and
  release and extend return false.
\<close>

theorem lock_errors_never_escape:
  "(\<exists>r. fst (acquire m key options w) = Inr r) \<and>
   (\<exists>b. fst (release m key token w) = Inr b) \<and>
   (\<exists>b. fst (extend m key token t w) = Inr b) \<and>
   (a \<le> rc \<and> fst (redis_set lk token t w) = Inl e \<longrightarrow>
      fst (acquire_loop lk token t rc d a w) = Inr None) \<and>
   (enabled m \<and> redis m \<noteq> None \<and> fst (redis_eval_release (lockKey key) token w) = Inl e \<longrightarrow>
      fst (release m key token w) = Inr False) \<and>
   (enabled m \<and> redis m \<noteq> None \<and> fst (redis_eval_extend (lockKey key) token t w) = Inl e \<longrightarrow>
      fst (extend m key token t w) = Inr False) \<and>
   (enabled m \<and> redis m \<noteq> None \<and> faults w = True # fs \<longrightarrow>
      fst (redis_set (lockKey key) token t w) = Inl (StoreError ''unavailable'') \<and>
      fst (redis_eval_release (lockKey key) token w) = Inl (StoreError ''unavailable'') \<and>
      fst (redis_eval_extend (lockKey key) token t w) = Inl (StoreError ''unavailable'') \<and>
      fst (acquire m key options w) = Inr None \<and>
      fst (release m key token w) = Inr False \<and>
      fst (extend m key token t w) = Inr False)"
proof (intro conjI impI)
  show "\<exists>r. fst (acquire m key options w) = Inr r" by (rule acquire_no_throw)
  show "\<exists>b. fst (release m key token w) = Inr b" by (rule release_no_throw)
  show "\<exists>b. fst (extend m key token t w) = Inr b" by (rule extend_no_throw)
next
  assume "a \<le> rc \<and> fst (redis_set lk token t w) = Inl e"
  then show "fst (acquire_loop lk token t rc d a w) = Inr None"
    by (subst acquire_loop.simps) (auto split: prod.splits sum.splits)
next
  assume "enabled m \<and> redis m \<noteq> None \<and> fst (redis_eval_release (lockKey key) token w) = Inl e"
  then show "fst (release m key token w) = Inr False"
    by (auto simp: release_def split: prod.splits sum.splits)
next
  assume "enabled m \<and> redis m \<noteq> None \<and> fst (redis_eval_extend (lockKey key) token t w) = Inl e"
  then show "fst (extend m key token t w) = Inr False"
    by (auto simp: extend_def split: prod.splits sum.splits)
next
  assume h: "enabled m \<and> redis m \<noteq> None \<and> faults w = True # fs"
  then have e: "enabled m" and r: "redis m \<noteq> None" and f: "faults w = True # fs" by simp_all
  show "fst (redis_set (lockKey key) token t w) = Inl (StoreError ''unavailable'')"
    by (simp add: redis_set_fault [OF f])
  show "fst (redis_eval_release (lockKey key) token w) = Inl (StoreError ''unavailable'')"
    by (rule redis_eval_release_fault [OF f])
  show "fst (redis_eval_extend (lockKey key) token t w) = Inl (StoreError ''unavailable'')"
    by (rule redis_eval_extend_fault [OF f])
  show "fst (acquire m key options w) = Inr None"
    by (rule acquire_fault_first [OF e r f])
  show "fst (release m key token w) = Inr False"
    using f by (simp add: release_enabled [OF e r] Let_def)
  show "fst (extend m key token t w) = Inr False"
    using f by (simp add: extend_enabled [OF e r] Let_def)
qed

theorem lock_errors_never_escape_witness:
  "enabled enabled_service \<and> redis enabled_service \<noteq> None \<and> faults down_world = [True] \<and>
   fst (redis_set (lockKey ''job'') ''7-5-0.25'' 30000 down_world) =
     Inl (StoreError ''unavailable'') \<and>
   fst (acquire_loop (lockKey ''job'') ''7-5-0.25'' 30000 3 200 2 down_world) = Inr None \<and>
   fst (acquire enabled_service ''job'' None down_world) = Inr None \<and>
   fst (release enabled_service ''job'' ''7-5-0.25'' down_world) = Inr False \<and>
   fst (extend enabled_service ''job'' ''7-5-0.25'' 30000 down_world) = Inr False"
proof -
  have f: "faults down_world = [True]" by (simp add: down_world_def free_world_def)
  have le: "(2::int) \<le> 3" by simp
  from lock_errors_never_escape [where m = enabled_service and key = "''job''"
      and options = None and w = down_world and token = "''7-5-0.25''" and t = 30000
      and fs = "[]" and lk = "lockKey ''job''" and a = 2 and rc = 3 and d = 200
      and e = "StoreError ''unavailable''"]
    f le enabled_service_simps(1,2)
  show ?thesis by simp
qed

text \<open>
  C10. \<^verbatim>\<open>exists\<close> has no error capture: with locking enabled and a store client
  present, an error of the store call comes out of \<^verbatim>\<open>exists\<close> unchanged (and
  without a fault, the answer is whether the key is live). With locking disabled or no
  store client, it returns false and leaves the world, the record of store calls
  included, as it was.
\<close>

theorem exists_propagates_store_error:
  "(enabled m \<and> redis m \<noteq> None \<and> fst (redis_exists (lockKey key) w) = Inl e \<longrightarrow>
      fst (exists m key w) = Inl e) \<and>
   (enabled m \<and> redis m \<noteq> None \<and> faults w = True # fs \<longrightarrow>
      fst (redis_exists (lockKey key) w) = Inl (StoreError ''unavailable'') \<and>
      fst (exists m key w) = Inl (StoreError ''unavailable'')) \<and>
   (enabled m \<and> redis m \<noteq> None \<and> (faults w = [] \<or> \<not> hd (faults w)) \<longrightarrow>
      fst (exists m key w) = Inr (live w (lockKey key) \<noteq> None)) \<and>
   (\<not> enabled m \<or> redis m = None \<longrightarrow> exists m key w = (Inr False, w))"
  by (auto simp: exists_def redis_exists_def issue_def cmd_exists_def live_issued
      split: option.splits if_splits)

theorem exists_propagates_store_error_witness:
  "enabled enabled_service \<and> redis enabled_service \<noteq> None \<and> faults down_world = [True] \<and>
   fst (exists enabled_service ''job'' down_world) = Inl (StoreError ''unavailable'') \<and>
   faults held_world = [] \<and>
   fst (exists enabled_service ''job'' held_world) = Inr True \<and>
   \<not> enabled disabled_service \<and>
   exists disabled_service ''job'' held_world = (Inr False, held_world)"
proof -
  have f: "faults down_world = [True]" by (simp add: down_world_def free_world_def)
  have g: "faults held_world = []" by (simp add: held_world_def free_world_def)
  have l: "live held_world (lockKey ''job'') = Some ''9-1-0.5''"
    by (simp add: live_def held_world_def free_world_def lockKey_def)
  from exists_propagates_store_error [of enabled_service "''job''" down_world _ "[]"]
    exists_propagates_store_error [of enabled_service "''job''" held_world _ "[]"]
    exists_propagates_store_error [of disabled_service "''job''" held_world _ "[]"]
    f g l enabled_service_simps(1,2) disabled_service_simps(1)
  show ?thesis by simp
qed

subsection \<open>With lock\<close>

lemma free_world_fields:
  "store free_world = Map.empty" "now free_world = 5" "pid free_world = 7"
  "randoms free_world = [''0.25'', ''0.75'']" "faults free_world = []"
  "trace free_world = []"
  by (simp_all add: free_world_def)

lemma held_world_fields:
  "store held_world = [''worker:lock:job'' \<mapsto> (''9-1-0.5'', 100000)]"
  "now held_world = 5" "pid held_world = 7"
  "randoms held_world = [''0.25'', ''0.75'']" "faults held_world = []"
  "trace held_world = []"
  by (simp_all add: held_world_def free_world_def)

lemma release_returns: "\<exists>b w3. release m key token w2 = (Inr b, w3)"
  using release_no_throw [of m key token w2] by (cases "release m key token w2") auto

lemma withLock_acquired:
  assumes "acquire m key options w = (Inr (Some token), w1)"
  shows "withLock m key fn options w =
     (fst (fn w1), snd (release m key token (snd (fn w1))))"
proof -
  have ne: "token \<noteq> []" by (rule acquire_token_nonempty [OF assms])
  obtain outcome w2 where fn: "fn w1 = (outcome, w2)" by (cases "fn w1")
  from release_returns obtain b w3 where rel: "release m key token w2 = (Inr b, w3)" by blast
  from assms ne fn rel show ?thesis by (simp add: withLock_def)
qed

text \<open>
  C3. After a successful acquire, \<^verbatim>\<open>withLock\<close> runs the unit of work and then
  release, on the world the unit of work left, whether it returned or threw; the outcome
  of \<^verbatim>\<open>withLock\<close> is the outcome of the unit of work, its result or its exception
  unchanged, whatever release returned. With locking enabled and a store client present
  the last store call is the check-and-delete script for this key and token.
\<close>

theorem withLock_always_releases:
  assumes "acquire m key options w = (Inr (Some token), w1)"
  shows "withLock m key fn options w =
       (fst (fn w1), snd (release m key token (snd (fn w1)))) \<and>
     (enabled m \<and> redis m \<noteq> None \<longrightarrow>
        trace (snd (withLock m key fn options w)) =
          trace (snd (fn w1)) @ [Call (EvalRelease (lockKey key) token)])"
  by (simp add: withLock_acquired [OF assms] release_enabled Let_def)

lemma acquire_flaky_world:
  "acquire enabled_service ''job'' None flaky_world =
     (Inr (Some ''7-5-0.25''),
      free_world\<lparr>randoms := [''0.75''], faults := [True],
        trace := [Call (Set ''worker:lock:job'' ''7-5-0.25'' 30000)],
        store := [''worker:lock:job'' \<mapsto> (''7-5-0.25'', 30005)]\<rparr>)"
  by (simp add: eval_defs flaky_world_def)

theorem withLock_always_releases_witness:
  "fst (acquire enabled_service ''job'' None flaky_world) = Inr (Some ''7-5-0.25'') \<and>
   fst (withLock enabled_service ''job'' work_throws None flaky_world) =
     Inl (WorkError ''boom'') \<and>
   fst (withLock enabled_service ''job'' work_void None flaky_world) = Inr JUndefined \<and>
   fst (release enabled_service ''job'' ''7-5-0.25''
          (snd (work_throws (snd (acquire enabled_service ''job'' None flaky_world))))) =
     Inr False \<and>
   enabled enabled_service \<and> redis enabled_service \<noteq> None \<and>
   trace (snd (withLock enabled_service ''job'' work_throws None flaky_world)) =
     [Call (Set ''worker:lock:job'' ''7-5-0.25'' 30000), Sleep 1,
      Call (EvalRelease ''worker:lock:job'' ''7-5-0.25'')]"
proof -
  let ?w1 = "snd (acquire enabled_service ''job'' None flaky_world)"
  have a: "acquire enabled_service ''job'' None flaky_world = (Inr (Some ''7-5-0.25''), ?w1)"
    by (simp add: acquire_flaky_world)
  have f: "fst (acquire enabled_service ''job'' None flaky_world) = Inr (Some ''7-5-0.25'')"
    by (simp add: acquire_flaky_world)
  have c: "trace (snd (work_throws ?w1)) =
      [Call (Set ''worker:lock:job'' ''7-5-0.25'' 30000), Sleep 1]"
    by (simp add: acquire_flaky_world work_throws_def sleep_def)
  have r: "fst (release enabled_service ''job'' ''7-5-0.25'' (snd (work_throws ?w1))) = Inr False"
    by (simp add: acquire_flaky_world work_throws_def sleep_def
        release_enabled [OF enabled_service_simps(1,2)] Let_def)
  note W = withLock_always_releases [OF a, of work_throws]
  from W have x1: "fst (withLock enabled_service ''job'' work_throws None flaky_world) =
      Inl (WorkError ''boom'')"
    by (simp add: work_throws_def)
  from withLock_always_releases [OF a, of work_void]
  have x2: "fst (withLock enabled_service ''job'' work_void None flaky_world) = Inr JUndefined"
    by (simp add: work_void_def)
  from W [THEN conjunct2] enabled_service_simps(1,2) c
  have x3: "trace (snd (withLock enabled_service ''job'' work_throws None flaky_world)) =
     [Call (Set ''worker:lock:job'' ''7-5-0.25'' 30000), Sleep 1,
      Call (EvalRelease ''worker:lock:job'' ''7-5-0.25'')]"
    by (simp add: lockKey_def)
  from f x1 x2 r enabled_service_simps(1,2) x3 show ?thesis by blast
qed

text \<open>
  C6, as the code has it. When acquire returns \<^verbatim>\<open>null\<close>, \<^verbatim>\<open>withLock\<close> returns
  \<^verbatim>\<open>null\<close> on the world acquire left, whatever the unit of work is: it is not run.
  When the lock was acquired and the unit of work ends in anything but a returned
  \<^verbatim>\<open>null\<close> (a value, \<^verbatim>\<open>undefined\<close>, an exception), the outcome differs from the
  skipped one.
\<close>

theorem withLock_skipped_returns_null:
  "(acquire m key options w = (Inr None, w1) \<longrightarrow>
      withLock m key fn options w = (Inr JNull, w1)) \<and>
   (acquire m key options w = (Inr (Some token), w1) \<and> fst (fn w1) \<noteq> Inr JNull \<longrightarrow>
      fst (withLock m key fn options w) \<noteq> Inr JNull)"
proof (intro conjI impI)
  assume "acquire m key options w = (Inr None, w1)"
  then show "withLock m key fn options w = (Inr JNull, w1)" by (simp add: withLock_def)
next
  assume "acquire m key options w = (Inr (Some token), w1) \<and> fst (fn w1) \<noteq> Inr JNull"
  then show "fst (withLock m key fn options w) \<noteq> Inr JNull"
    by (simp add: withLock_acquired)
qed

lemma acquire_held_world:
  "acquire enabled_service ''job'' None held_world =
     (Inr None,
      held_world\<lparr>now := 605, randoms := [''0.75''], faults := [],
        trace :=
          [Call (Set ''worker:lock:job'' ''7-5-0.25'' 30000), Sleep 200,
           Call (Set ''worker:lock:job'' ''7-5-0.25'' 30000), Sleep 200,
           Call (Set ''worker:lock:job'' ''7-5-0.25'' 30000), Sleep 200,
           Call (Set ''worker:lock:job'' ''7-5-0.25'' 30000)]\<rparr>)"
  by (simp add: eval_defs)

theorem withLock_skipped_returns_null_witness:
  "fst (acquire enabled_service ''job'' None held_world) = Inr None \<and>
   withLock enabled_service ''job'' work_throws None held_world =
     (Inr JNull, snd (acquire enabled_service ''job'' None held_world)) \<and>
   fst (acquire enabled_service ''job'' None free_world) = Inr (Some ''7-5-0.25'') \<and>
   fst (work_void (snd (acquire enabled_service ''job'' None free_world))) \<noteq> Inr JNull \<and>
   fst (withLock enabled_service ''job'' work_void None free_world) \<noteq> Inr JNull"
proof -
  let ?h = "snd (acquire enabled_service ''job'' None held_world)"
  let ?f = "snd (acquire enabled_service ''job'' None free_world)"
  have fh: "fst (acquire enabled_service ''job'' None held_world) = Inr None"
    by (simp add: acquire_held_world)
  then have ah: "acquire enabled_service ''job'' None held_world = (Inr None, ?h)"
    by (simp add: prod_eq_iff)
  have ff: "fst (acquire enabled_service ''job'' None free_world) = Inr (Some ''7-5-0.25'')"
    by (simp add: acquire_free_world)
  then have af: "acquire enabled_service ''job'' None free_world = (Inr (Some ''7-5-0.25''), ?f)"
    by (simp add: prod_eq_iff)
  have v: "fst (work_void ?f) \<noteq> Inr JNull" by (simp add: work_void_def)
  from withLock_skipped_returns_null
      [where m = enabled_service and key = "''job''" and options = None and w = held_world
        and ?w1.0 = ?h and fn = work_throws]
    withLock_skipped_returns_null
      [where m = enabled_service and key = "''job''" and options = None and w = free_world
        and ?w1.0 = ?f and fn = work_void and token = "''7-5-0.25''"]
    ah af v fh ff
  show ?thesis by blast
qed

text \<open>
  C6 as stated fails for a unit of work that returns \<^verbatim>\<open>null\<close>: the run that
  executed it (lock free: set, work, release) and the run that skipped it (lock held:
  four refused sets, three sleeps between them) return the same \<^verbatim>\<open>null\<close>.
\<close>

theorem withLock_null_counterexample:
  "fst (withLock enabled_service ''job'' work_null None free_world) = Inr JNull \<and>
   trace (snd (withLock enabled_service ''job'' work_null None free_world)) =
     [Call (Set ''worker:lock:job'' ''7-5-0.25'' 30000), Sleep 1,
      Call (EvalRelease ''worker:lock:job'' ''7-5-0.25'')] \<and>
   fst (withLock enabled_service ''job'' work_null None held_world) = Inr JNull \<and>
   trace (snd (withLock enabled_service ''job'' work_null None held_world)) =
     [Call (Set ''worker:lock:job'' ''7-5-0.25'' 30000), Sleep 200,
      Call (Set ''worker:lock:job'' ''7-5-0.25'' 30000), Sleep 200,
      Call (Set ''worker:lock:job'' ''7-5-0.25'' 30000), Sleep 200,
      Call (Set ''worker:lock:job'' ''7-5-0.25'' 30000)]"
  by (simp add: withLock_def acquire_free_world acquire_held_world work_null_def sleep_def
      release_enabled [OF enabled_service_simps(1,2)] Let_def free_world_fields held_world_fields
      lockKey_def)

subsection \<open>The retry loop\<close>

lemma calls_of_append: "calls_of (xs @ ys) = calls_of xs @ calls_of ys"
  by (induction xs rule: calls_of.induct) simp_all

lemma sleeps_of_append: "sleeps_of (xs @ ys) = sleeps_of xs @ sleeps_of ys"
  by (induction xs rule: sleeps_of.induct) simp_all

lemma calls_of_rounds: "calls_of (concat (replicate n [Call c, Sleep d])) = replicate n c"
  by (induction n) simp_all

lemma sleeps_of_rounds: "sleeps_of (concat (replicate n [Call c, Sleep d])) = replicate n d"
  by (induction n) simp_all

lemma sum_list_replicate_int: "sum_list (replicate n (d::int)) = int n * d"
  by (induction n) (simp_all add: algebra_simps)

lemma or_default_supplied:
  "or_default options field dflt =
     (case supplied options field of
        None \<Rightarrow> dflt
      | Some x \<Rightarrow> if x = 0 then dflt else x)"
  by (simp add: or_default_def supplied_def split: option.splits)

text \<open>
  C4, as the code has it. Locking is enabled and a store client present. Let \<open>rc\<close>,
  \<open>d\<close> and \<open>t\<close> be the retry count, retry delay and ttl of the call: the value the
  options supply, or the default where they supply none; no supplied value is 0, and
  \<open>rc\<close> is not negative. When every store attempt fails because the key is held (the
  entry outlives the last attempt, the ttl is valid and no call is rejected), acquire
  makes exactly \<open>1 + rc\<close> set-if-absent calls with a call of \<^verbatim>\<open>sleep(d)\<close> after each
  but the last, so \<open>rc\<close> sleeps whose delays add up to \<open>rc * d\<close>, and returns
  \<^verbatim>\<open>null\<close>, not an exception. Each sleep is a \<^verbatim>\<open>setTimeout\<close> of \<open>d\<close>, which lasts
  \<open>d\<close> ms for \<open>d\<close> from 1 to 2147483647 and 1 ms for any other \<open>d\<close>: the time slept
  in all, by which the clock has moved when acquire returns, is \<open>rc\<close> times that.
\<close>

theorem acquire_bounded_retry:
  assumes en: "enabled m" and re: "redis m \<noteq> None"
    and nzc: "supplied options retryCount \<noteq> Some 0"
    and nzd: "supplied options retryDelay \<noteq> Some 0"
    and nzt: "supplied options ttl \<noteq> Some 0"
    and rc: "rc = (case supplied options retryCount of
                     None \<Rightarrow> defaultRetryCount m | Some x \<Rightarrow> x)"
    and d: "d = (case supplied options retryDelay of
                   None \<Rightarrow> defaultRetryDelay m | Some x \<Rightarrow> x)"
    and t: "t = (case supplied options ttl of None \<Rightarrow> defaultTtl m | Some x \<Rightarrow> x)"
    and S: "S = Set (lockKey key) (make_token (pid w) (now w) (fst (Math_random w))) t"
    and nonneg: "0 \<le> rc" and pos: "0 < t"
    and st: "store w (lockKey key) = Some (v, e)"
    and held: "int (now w) + rc * timeout_ms d < e"
    and nf: "True \<notin> set (take (Suc (nat rc)) (faults w))"
  shows "\<exists>attempts.
      fst (acquire m key options w) = Inr None \<and>
      trace (snd (acquire m key options w)) = trace w @ attempts \<and>
      attempts = concat (replicate (nat rc) [Call S, Sleep d]) @ [Call S] \<and>
      calls_of attempts = replicate (nat (1 + rc)) S \<and>
      sleeps_of attempts = replicate (nat rc) d \<and>
      sum_list (sleeps_of attempts) = rc * d \<and>
      int (now (snd (acquire m key options w))) = int (now w) + rc * timeout_ms d \<and>
      timeout_ms d = (if 1 \<le> d \<and> d \<le> 2147483647 then d else 1)"
proof -
  let ?w0 = "snd (Math_random w)"
  let ?tok = "make_token (pid w) (now w) (fst (Math_random w))"
  have rc': "or_default options retryCount (defaultRetryCount m) = rc"
    using nzc rc by (simp add: or_default_supplied split: option.splits)
  have d': "or_default options retryDelay (defaultRetryDelay m) = d"
    using nzd d by (simp add: or_default_supplied split: option.splits)
  have t': "or_default options ttl (defaultTtl m) = t"
    using nzt t by (simp add: or_default_supplied split: option.splits)
  have st0: "store ?w0 (lockKey key) = Some (v, e)" using st by (simp add: Math_random_fields)
  have held0: "int (now ?w0) + rc * timeout_ms d < e" using held by (simp add: Math_random_fields)
  have nf0: "True \<notin> set (take (Suc (nat rc)) (faults ?w0))" using nf by (simp add: Math_random_fields)
  have "acquire m key options w = acquire_loop (lockKey key) ?tok t rc d 0 ?w0"
    by (simp add: acquire_enabled [OF en re] rc' d' t')
  also note acquire_loop_all_contended [OF pos st0 nonneg held0 nf0, of ?tok]
  finally have a: "acquire m key options w =
    (Inr None,
       ?w0\<lparr>now := now ?w0 + nat rc * nat (timeout_ms d),
          faults := drop (Suc (nat rc)) (faults ?w0),
          trace := trace ?w0 @ concat (replicate (nat rc) [Call S, Sleep d]) @ [Call S]\<rparr>)"
    by (simp add: S)
  have n: "nat (1 + rc) = Suc (nat rc)" using nonneg by simp
  let ?attempts = "concat (replicate (nat rc) [Call S, Sleep d]) @ [Call S]"
  have 1: "fst (acquire m key options w) = Inr None" by (simp add: a)
  have 2: "trace (snd (acquire m key options w)) = trace w @ ?attempts"
    by (simp add: a Math_random_fields)
  have 3: "calls_of ?attempts = replicate (nat (1 + rc)) S"
    by (simp add: calls_of_append calls_of_rounds n replicate_append_same)
  have 4: "sleeps_of ?attempts = replicate (nat rc) d"
    by (simp add: sleeps_of_append sleeps_of_rounds)
  have 5: "sum_list (sleeps_of ?attempts) = rc * d"
    using nonneg by (simp add: 4 sum_list_replicate_int)
  have tp: "0 < timeout_ms d" by (rule timeout_ms_pos)
  have "int (nat rc * nat (timeout_ms d)) = rc * timeout_ms d"
    using nonneg tp by simp
  then have 6: "int (now (snd (acquire m key options w))) = int (now w) + rc * timeout_ms d"
    by (simp add: a Math_random_fields)
  have 7: "timeout_ms d = (if 1 \<le> d \<and> d \<le> 2147483647 then d else 1)"
    by (auto simp: timeout_ms_def)
  from 1 2 3 4 5 6 7 show ?thesis by blast
qed

lemma enabled_service_options:
  "or_default None retryCount (defaultRetryCount enabled_service) = 3"
  "or_default None retryDelay (defaultRetryDelay enabled_service) = 200"
  "or_default None ttl (defaultTtl enabled_service) = 30000"
  by (simp_all add: or_default_def enabled_service_simps)

lemma held_world_token:
  "make_token (pid held_world) (now held_world) (fst (Math_random held_world)) = ''7-5-0.25''"
  by (simp add: held_world_fields make_token_def Math_random_def digit_def string_of_nat.simps)

lemma held_world_lock: "store held_world (lockKey ''job'') = Some (''9-1-0.5'', 100000)"
  by (simp add: held_world_fields lockKey_def)

theorem acquire_bounded_retry_witness:
  "enabled enabled_service \<and> redis enabled_service \<noteq> None \<and>
   supplied (Some two_retries) retryCount = Some 2 \<and>
   supplied (Some two_retries) retryDelay = Some 50 \<and>
   supplied (Some two_retries) ttl = Some 1000 \<and>
   store held_world (lockKey ''job'') = Some (''9-1-0.5'', 100000) \<and>
   int (now held_world) + 2 * timeout_ms 50 < 100000 \<and>
   True \<notin> set (take (Suc (nat 2)) (faults held_world)) \<and>
   fst (acquire enabled_service ''job'' (Some two_retries) held_world) = Inr None \<and>
   trace (snd (acquire enabled_service ''job'' (Some two_retries) held_world)) =
     [Call (Set ''worker:lock:job'' ''7-5-0.25'' 1000), Sleep 50,
      Call (Set ''worker:lock:job'' ''7-5-0.25'' 1000), Sleep 50,
      Call (Set ''worker:lock:job'' ''7-5-0.25'' 1000)] \<and>
   sum_list (sleeps_of (trace (snd
     (acquire enabled_service ''job'' (Some two_retries) held_world)))) = 2 * 50 \<and>
   int (now (snd (acquire enabled_service ''job'' (Some two_retries) held_world))) =
     int (now held_world) + 2 * 50"
proof -
  note e = enabled_service_simps(1) and r = enabled_service_simps(2)
  have sc: "supplied (Some two_retries) retryCount = Some 2"
    and sd: "supplied (Some two_retries) retryDelay = Some 50"
    and st: "supplied (Some two_retries) ttl = Some 1000"
    by (simp_all add: supplied_def two_retries_def)
  have nzc: "supplied (Some two_retries) retryCount \<noteq> Some 0"
    and nzd: "supplied (Some two_retries) retryDelay \<noteq> Some 0"
    and nzt: "supplied (Some two_retries) ttl \<noteq> Some 0"
    by (simp_all add: sc sd st)
  have rc: "(2::int) = (case supplied (Some two_retries) retryCount of
      None \<Rightarrow> defaultRetryCount enabled_service | Some x \<Rightarrow> x)" by (simp add: sc)
  have d: "(50::int) = (case supplied (Some two_retries) retryDelay of
      None \<Rightarrow> defaultRetryDelay enabled_service | Some x \<Rightarrow> x)" by (simp add: sd)
  have t: "(1000::int) = (case supplied (Some two_retries) ttl of
      None \<Rightarrow> defaultTtl enabled_service | Some x \<Rightarrow> x)" by (simp add: st)
  have tm: "timeout_ms 50 = 50" by (simp add: timeout_ms_def)
  have held: "int (now held_world) + 2 * timeout_ms 50 < 100000"
    by (simp add: held_world_fields tm)
  have nf: "True \<notin> set (take (Suc (nat 2)) (faults held_world))"
    by (simp add: held_world_fields)
  have nn: "(0::int) \<le> 2" and pos: "(0::int) < 1000" by simp_all
  from acquire_bounded_retry [OF e r nzc nzd nzt rc d t refl nn pos held_world_lock held nf,
      unfolded held_world_token]
  obtain attempts where
    1: "fst (acquire enabled_service ''job'' (Some two_retries) held_world) = Inr None"
    and 2: "trace (snd (acquire enabled_service ''job'' (Some two_retries) held_world)) =
        trace held_world @ attempts"
    and 3: "attempts = concat (replicate (nat 2)
        [Call (Set (lockKey ''job'') ''7-5-0.25'' 1000), Sleep 50]) @
        [Call (Set (lockKey ''job'') ''7-5-0.25'' 1000)]"
    and 4: "sum_list (sleeps_of attempts) = 2 * 50"
    and 5: "int (now (snd (acquire enabled_service ''job'' (Some two_retries) held_world))) =
        int (now held_world) + 2 * timeout_ms 50"
    by blast
  have n: "nat 2 = Suc (Suc 0)" by simp
  from 2 3 have 6: "trace (snd (acquire enabled_service ''job'' (Some two_retries) held_world)) =
     [Call (Set ''worker:lock:job'' ''7-5-0.25'' 1000), Sleep 50,
      Call (Set ''worker:lock:job'' ''7-5-0.25'' 1000), Sleep 50,
      Call (Set ''worker:lock:job'' ''7-5-0.25'' 1000)]"
    unfolding n by (simp add: held_world_fields lockKey_def)
  from 2 4 have 7: "sum_list (sleeps_of (trace (snd
      (acquire enabled_service ''job'' (Some two_retries) held_world)))) = 2 * 50"
    by (simp add: held_world_fields)
  from 5 have 8: "int (now (snd (acquire enabled_service ''job'' (Some two_retries) held_world))) =
     int (now held_world) + 2 * 50"
    by (simp only: tm)
  from e r sc sd st held_world_lock held nf 1 6 7 8 show ?thesis by blast
qed

text \<open>
  C4 as stated fails for a retry delay that \<^verbatim>\<open>setTimeout\<close> does not take as it is: with
  \<^verbatim>\<open>{ retryDelay: 2147483648 }\<close> and the default three retries on a held key, acquire
  makes its four attempts and three calls of \<^verbatim>\<open>sleep(2147483648)\<close>, each of which lasts
  1 ms: the time slept is 3 ms, not three times the retry delay.
\<close>

theorem acquire_long_delay_counterexample:
  "supplied (Some long_delay) retryDelay = Some 2147483648 \<and>
   fst (acquire enabled_service ''job'' (Some long_delay) held_world) = Inr None \<and>
   trace (snd (acquire enabled_service ''job'' (Some long_delay) held_world)) =
     [Call (Set ''worker:lock:job'' ''7-5-0.25'' 30000), Sleep 2147483648,
      Call (Set ''worker:lock:job'' ''7-5-0.25'' 30000), Sleep 2147483648,
      Call (Set ''worker:lock:job'' ''7-5-0.25'' 30000), Sleep 2147483648,
      Call (Set ''worker:lock:job'' ''7-5-0.25'' 30000)] \<and>
   now held_world = 5 \<and>
   now (snd (acquire enabled_service ''job'' (Some long_delay) held_world)) = 8"
  by (simp add: eval_defs supplied_def long_delay_def)

lemma acquire_loop_contended_then_fault:
  assumes le: "int j \<le> rc"
    and fl: "take (Suc j) (faults w) = replicate j False @ [True]"
    and cont: "j = 0 \<or> (0 < t \<and> (\<exists>v e. store w lk = Some (v, e) \<and>
                 int (now w) + (int j - 1) * timeout_ms d < e))"
  shows "acquire_loop lk token t rc d 0 w =
     (Inr None,
      w\<lparr>now := now w + j * nat (timeout_ms d),
        faults := drop (Suc j) (faults w),
        trace := trace w @ concat (replicate j [Call (Set lk token t), Sleep d]) @
          [Call (Set lk token t)]\<rparr>)"
proof -
  let ?wj = "w\<lparr>now := now w + j * nat (timeout_ms d),
            faults := drop j (faults w),
            trace := trace w @ concat (replicate j [Call (Set lk token t), Sleep d])\<rparr>"
  have len: "j < length (faults w)"
  proof (rule ccontr)
    assume "\<not> j < length (faults w)"
    then have "length (take (Suc j) (faults w)) \<le> j" by simp
    with fl show False by simp
  qed
  from fl len have tk: "take j (faults w) = replicate j False" and nth: "faults w ! j = True"
    by (simp_all add: take_Suc_conv_app_nth)
  have nf: "True \<notin> set (take j (faults w))" by (simp add: tk)
  have first: "acquire_loop lk token t rc d 0 w = acquire_loop lk token t rc d (int j) ?wj"
  proof (cases "j = 0")
    case True
    then show ?thesis by simp
  next
    case False
    with cont obtain v e where pos: "0 < t" and st: "store w lk = Some (v, e)"
      and held: "int (now w) + (int j - 1) * timeout_ms d < e" by blast
    from held have h: "j = 0 \<or> int (now w) + (int j - 1) * timeout_ms d < e" by simp
    from le have le0: "0 + int j \<le> rc" by simp
    from acquire_loop_contended [OF pos st le0 h nf] show ?thesis by simp
  qed
  have fj: "faults ?wj = True # drop (Suc j) (faults w)"
    using len nth by (simp add: Cons_nth_drop_Suc [symmetric])
  from acquire_loop_fault [OF le fj] first show ?thesis by simp
qed

text \<open>
  C5, as the code has it. When the first \<open>j\<close> attempts fail because the key is held
  and the store call of the next attempt (one of the \<open>1 + rc\<close>) is rejected, acquire
  stops there: the trace is those \<open>j\<close> refused sets, each followed by a sleep, and the
  rejected set; no further attempt, no further sleep. It returns \<^verbatim>\<open>null\<close>, not an
  exception, and the store is as it was.
\<close>

theorem acquire_store_error_stops:
  assumes en: "enabled m" and re: "redis m \<noteq> None"
    and rc: "rc = or_default options retryCount (defaultRetryCount m)"
    and d: "d = or_default options retryDelay (defaultRetryDelay m)"
    and t: "t = or_default options ttl (defaultTtl m)"
    and S: "S = Set (lockKey key) (make_token (pid w) (now w) (fst (Math_random w))) t"
    and le: "int j \<le> rc"
    and fl: "take (Suc j) (faults w) = replicate j False @ [True]"
    and cont: "j = 0 \<or> (0 < t \<and> (\<exists>v e. store w (lockKey key) = Some (v, e) \<and>
                 int (now w) + (int j - 1) * timeout_ms d < e))"
  shows "fst (acquire m key options w) = Inr None \<and>
     trace (snd (acquire m key options w)) =
       trace w @ concat (replicate j [Call S, Sleep d]) @ [Call S] \<and>
     store (snd (acquire m key options w)) = store w"
proof -
  let ?w0 = "snd (Math_random w)"
  let ?tok = "make_token (pid w) (now w) (fst (Math_random w))"
  have fl0: "take (Suc j) (faults ?w0) = replicate j False @ [True]"
    using fl by (simp add: Math_random_fields)
  have cont0: "j = 0 \<or> (0 < t \<and> (\<exists>v e. store ?w0 (lockKey key) = Some (v, e) \<and>
                 int (now ?w0) + (int j - 1) * timeout_ms d < e))"
    using cont by (simp add: Math_random_fields)
  have "acquire m key options w = acquire_loop (lockKey key) ?tok t rc d 0 ?w0"
    by (simp add: acquire_enabled [OF en re] rc d t)
  also note acquire_loop_contended_then_fault [OF le fl0 cont0, of ?tok]
  finally show ?thesis by (simp add: S Math_random_fields)
qed

lemma held_flaky_world_fields:
  "store held_flaky_world = [''worker:lock:job'' \<mapsto> (''9-1-0.5'', 100000)]"
  "now held_flaky_world = 5" "pid held_flaky_world = 7"
  "randoms held_flaky_world = [''0.25'', ''0.75'']" "faults held_flaky_world = [False, True]"
  "trace held_flaky_world = []"
  by (simp_all add: held_flaky_world_def held_world_def free_world_def)

theorem acquire_store_error_stops_witness:
  "enabled enabled_service \<and> redis enabled_service \<noteq> None \<and>
   int (Suc 0) \<le> or_default None retryCount (defaultRetryCount enabled_service) \<and>
   take (Suc (Suc 0)) (faults held_flaky_world) = replicate (Suc 0) False @ [True] \<and>
   store held_flaky_world (lockKey ''job'') = Some (''9-1-0.5'', 100000) \<and>
   fst (acquire enabled_service ''job'' None held_flaky_world) = Inr None \<and>
   trace (snd (acquire enabled_service ''job'' None held_flaky_world)) =
     [Call (Set ''worker:lock:job'' ''7-5-0.25'' 30000), Sleep 200,
      Call (Set ''worker:lock:job'' ''7-5-0.25'' 30000)]"
proof -
  note e = enabled_service_simps(1) and r = enabled_service_simps(2)
  have le: "int (Suc 0) \<le> 3" by simp
  have fl: "take (Suc (Suc 0)) (faults held_flaky_world) = replicate (Suc 0) False @ [True]"
    by (simp add: held_flaky_world_fields)
  have st: "store held_flaky_world (lockKey ''job'') = Some (''9-1-0.5'', 100000)"
    by (simp add: held_flaky_world_fields lockKey_def)
  have cont: "Suc 0 = 0 \<or> ((0::int) < 30000 \<and> (\<exists>v e. store held_flaky_world (lockKey ''job'') = Some (v, e) \<and>
                 int (now held_flaky_world) + (int (Suc 0) - 1) * timeout_ms 200 < e))"
    using st by (simp add: held_flaky_world_fields)
  have tok: "make_token (pid held_flaky_world) (now held_flaky_world)
      (fst (Math_random held_flaky_world)) = ''7-5-0.25''"
    by (simp add: held_flaky_world_fields make_token_def Math_random_def digit_def
        string_of_nat.simps)
  from acquire_store_error_stops [OF e r enabled_service_options(1) [symmetric]
      enabled_service_options(2) [symmetric] enabled_service_options(3) [symmetric] refl
      le fl cont, unfolded tok]
  have "fst (acquire enabled_service ''job'' None held_flaky_world) = Inr None \<and>
     trace (snd (acquire enabled_service ''job'' None held_flaky_world)) =
     [Call (Set ''worker:lock:job'' ''7-5-0.25'' 30000), Sleep 200,
      Call (Set ''worker:lock:job'' ''7-5-0.25'' 30000)]"
    by (simp add: held_flaky_world_fields lockKey_def)
  with e r le fl st show ?thesis by (simp add: enabled_service_options)
qed

text \<open>
  C5 as stated fails: with three retries configured and the lock free, a rejected first
  store call ends acquire after that one call, with \<^verbatim>\<open>null\<close>; it does not go on to
  the remaining attempts.
\<close>

theorem acquire_store_error_counterexample:
  "or_default None retryCount (defaultRetryCount enabled_service) = 3 \<and>
   live down_world (lockKey ''job'') = None \<and>
   faults down_world = [True] \<and>
   fst (redis_set (lockKey ''job'') ''7-5-0.25'' 30000 down_world) =
     Inl (StoreError ''unavailable'') \<and>
   acquire enabled_service ''job'' None down_world =
     (Inr None,
      down_world\<lparr>randoms := [''0.75''], faults := [],
        trace := [Call (Set ''worker:lock:job'' ''7-5-0.25'' 30000)]\<rparr>)"
  by (simp add: eval_defs)

subsection \<open>Options and defaults\<close>

lemma or_default_Some:
  "field opts = Some x \<Longrightarrow> or_default (Some opts) field dflt = (if x = 0 then dflt else x)"
  by (simp add: or_default_def)

text \<open>
  C7: what the code does for \<^verbatim>\<open>{ retryCount: 0 }\<close>. The supplied 0 is falsy in
  \<^verbatim>\<open>options?.retryCount || this.defaultRetryCount\<close>, so the retry count acquire
  uses is the default \<open>rc\<close>: on a held key it makes \<open>1 + rc\<close> attempts with
  \<open>rc\<close> sleeps, not one attempt and no sleep.
\<close>

theorem acquire_retryCount_zero_uses_default:
  assumes en: "enabled m" and re: "redis m \<noteq> None"
    and zero: "retryCount opts = Some 0"
    and rc: "rc = defaultRetryCount m"
    and d: "d = or_default (Some opts) retryDelay (defaultRetryDelay m)"
    and t: "t = or_default (Some opts) ttl (defaultTtl m)"
    and S: "S = Set (lockKey key) (make_token (pid w) (now w) (fst (Math_random w))) t"
    and nonneg: "0 \<le> rc" and pos: "0 < t"
    and st: "store w (lockKey key) = Some (v, e)"
    and held: "int (now w) + rc * timeout_ms d < e"
    and nf: "True \<notin> set (take (Suc (nat rc)) (faults w))"
  shows "or_default (Some opts) retryCount (defaultRetryCount m) = rc \<and>
     fst (acquire m key (Some opts) w) = Inr None \<and>
     trace (snd (acquire m key (Some opts) w)) =
       trace w @ concat (replicate (nat rc) [Call S, Sleep d]) @ [Call S]"
proof -
  let ?w0 = "snd (Math_random w)"
  let ?tok = "make_token (pid w) (now w) (fst (Math_random w))"
  have eff: "or_default (Some opts) retryCount (defaultRetryCount m) = rc"
    using zero rc by (simp add: or_default_Some)
  have st0: "store ?w0 (lockKey key) = Some (v, e)" using st by (simp add: Math_random_fields)
  have held0: "int (now ?w0) + rc * timeout_ms d < e" using held by (simp add: Math_random_fields)
  have nf0: "True \<notin> set (take (Suc (nat rc)) (faults ?w0))" using nf by (simp add: Math_random_fields)
  have "acquire m key (Some opts) w = acquire_loop (lockKey key) ?tok t rc d 0 ?w0"
    by (simp add: acquire_enabled [OF en re] eff d t)
  also note acquire_loop_all_contended [OF pos st0 nonneg held0 nf0, of ?tok]
  finally show ?thesis using eff by (simp add: S Math_random_fields)
qed

theorem acquire_retryCount_zero_uses_default_witness:
  "enabled enabled_service \<and> redis enabled_service \<noteq> None \<and>
   retryCount no_retry = Some 0 \<and> defaultRetryCount enabled_service = 3 \<and>
   store held_world (lockKey ''job'') = Some (''9-1-0.5'', 100000) \<and>
   int (now held_world) + 3 * timeout_ms 200 < 100000 \<and>
   True \<notin> set (take (Suc (nat 3)) (faults held_world)) \<and>
   or_default (Some no_retry) retryCount (defaultRetryCount enabled_service) = 3 \<and>
   fst (acquire enabled_service ''job'' (Some no_retry) held_world) = Inr None \<and>
   trace (snd (acquire enabled_service ''job'' (Some no_retry) held_world)) =
     [Call (Set ''worker:lock:job'' ''7-5-0.25'' 30000), Sleep 200,
      Call (Set ''worker:lock:job'' ''7-5-0.25'' 30000), Sleep 200,
      Call (Set ''worker:lock:job'' ''7-5-0.25'' 30000), Sleep 200,
      Call (Set ''worker:lock:job'' ''7-5-0.25'' 30000)]"
proof -
  note e = enabled_service_simps(1) and r = enabled_service_simps(2)
  have z: "retryCount no_retry = Some 0" by (simp add: no_retry_def)
  have rc: "(3::int) = defaultRetryCount enabled_service" by (simp add: enabled_service_simps)
  have d: "(200::int) = or_default (Some no_retry) retryDelay (defaultRetryDelay enabled_service)"
    by (simp add: or_default_def no_retry_def enabled_service_simps)
  have t: "(30000::int) = or_default (Some no_retry) ttl (defaultTtl enabled_service)"
    by (simp add: or_default_def no_retry_def enabled_service_simps)
  have st: "store held_world (lockKey ''job'') = Some (''9-1-0.5'', 100000)"
    by (simp add: held_world_fields lockKey_def)
  have held: "int (now held_world) + 3 * timeout_ms 200 < 100000"
    by (simp add: held_world_fields timeout_ms_def)
  have nf: "True \<notin> set (take (Suc (nat 3)) (faults held_world))"
    by (simp add: held_world_fields)
  have n: "nat 3 = Suc (Suc (Suc 0))" by simp
  from acquire_retryCount_zero_uses_default [OF e r z rc d t refl _ _ st held nf,
      unfolded held_world_token]
  have "or_default (Some no_retry) retryCount (defaultRetryCount enabled_service) = 3 \<and>
   fst (acquire enabled_service ''job'' (Some no_retry) held_world) = Inr None \<and>
   trace (snd (acquire enabled_service ''job'' (Some no_retry) held_world)) =
     [Call (Set ''worker:lock:job'' ''7-5-0.25'' 30000), Sleep 200,
      Call (Set ''worker:lock:job'' ''7-5-0.25'' 30000), Sleep 200,
      Call (Set ''worker:lock:job'' ''7-5-0.25'' 30000), Sleep 200,
      Call (Set ''worker:lock:job'' ''7-5-0.25'' 30000)]"
    unfolding n by (simp add: held_world_fields lockKey_def)
  with e r z rc st held nf show ?thesis by simp
qed

subsection \<open>Tokens\<close>

lemma digit_inj: "d < 10 \<Longrightarrow> d' < 10 \<Longrightarrow> digit d = digit d' \<Longrightarrow> d = d'"
proof -
  assume a: "d < 10" "d' < 10" "digit d = digit d'"
  have "distinct ''0123456789''" by simp
  moreover have "d < length ''0123456789''" "d' < length ''0123456789''" using a by simp_all
  ultimately show "d = d'" using a(3) unfolding digit_def
    by (simp only: nth_eq_iff_index_eq)
qed

lemma digit_in: "d < 10 \<Longrightarrow> digit d \<in> set ''0123456789''"
  unfolding digit_def by (rule nth_mem) simp

lemma string_of_nat_unfold_ge:
  "\<not> n < 10 \<Longrightarrow> string_of_nat n = string_of_nat (n div 10) @ [digit (n mod 10)]"
  by (subst string_of_nat.simps) simp

lemma string_of_nat_unfold_lt: "n < 10 \<Longrightarrow> string_of_nat n = [digit n]"
  by (subst string_of_nat.simps) simp

lemma string_of_nat_digits: "c \<in> set (string_of_nat n) \<Longrightarrow> c \<in> set ''0123456789''"
proof (induction n rule: string_of_nat.induct)
  case (1 n)
  show ?case
  proof (cases "n < 10")
    case True
    with "1.prems" have "c = digit n" by (simp add: string_of_nat_unfold_lt)
    with True digit_in show ?thesis by blast
  next
    case False
    with "1.prems" have "c \<in> set (string_of_nat (n div 10)) \<or> c = digit (n mod 10)"
      by (auto simp: string_of_nat_unfold_ge)
    then show ?thesis
    proof
      assume "c \<in> set (string_of_nat (n div 10))"
      with "1.IH" False show ?thesis by blast
    next
      assume "c = digit (n mod 10)"
      moreover have "n mod 10 < 10" by simp
      ultimately show ?thesis using digit_in by blast
    qed
  qed
qed

lemma string_of_nat_no_dash: "CHR ''-'' \<notin> set (string_of_nat n)"
proof
  assume "CHR ''-'' \<in> set (string_of_nat n)"
  then have "CHR ''-'' \<in> set ''0123456789''" by (rule string_of_nat_digits)
  then show False by simp
qed

lemma string_of_nat_inj: "string_of_nat n = string_of_nat m \<Longrightarrow> n = m"
proof (induction n arbitrary: m rule: string_of_nat.induct)
  case (1 n)
  show ?case
  proof (cases "n < 10")
    case n: True
    show ?thesis
    proof (cases "m < 10")
      case True
      with n "1.prems" show ?thesis
        by (simp add: string_of_nat_unfold_lt digit_inj)
    next
      case False
      with n "1.prems" have "[digit n] = string_of_nat (m div 10) @ [digit (m mod 10)]"
        by (simp add: string_of_nat_unfold_lt string_of_nat_unfold_ge)
      then have "string_of_nat (m div 10) = []" by simp
      with string_of_nat_nonempty show ?thesis by blast
    qed
  next
    case n: False
    show ?thesis
    proof (cases "m < 10")
      case True
      with n "1.prems" have "string_of_nat (n div 10) @ [digit (n mod 10)] = [digit m]"
        by (simp add: string_of_nat_unfold_lt string_of_nat_unfold_ge)
      then have "string_of_nat (n div 10) = []" by simp
      with string_of_nat_nonempty show ?thesis by blast
    next
      case False
      with n "1.prems" have eq: "string_of_nat (n div 10) = string_of_nat (m div 10)"
        and dg: "digit (n mod 10) = digit (m mod 10)"
        by (simp_all add: string_of_nat_unfold_ge)
      from "1.IH" [OF n eq] have "n div 10 = m div 10" .
      moreover from dg have "n mod 10 = m mod 10" by (rule digit_inj [rotated 2]) simp_all
      ultimately show ?thesis by (metis div_mult_mod_eq)
    qed
  qed
qed

lemma split_at_first:
  "c \<notin> set xs \<Longrightarrow> c \<notin> set xs' \<Longrightarrow> xs @ c # ys = xs' @ c # ys' \<Longrightarrow> xs = xs' \<and> ys = ys'"
proof (induction xs arbitrary: xs')
  case Nil
  then show ?case by (cases xs') auto
next
  case (Cons x xs)
  then show ?case by (cases xs') auto
qed

lemma make_token_inj:
  "make_token p t r = make_token p' t' r' \<longleftrightarrow> p = p' \<and> t = t' \<and> r = r'"
proof
  assume eq: "make_token p t r = make_token p' t' r'"
  then have "string_of_nat p @ CHR ''-'' # (string_of_nat t @ CHR ''-'' # r) =
      string_of_nat p' @ CHR ''-'' # (string_of_nat t' @ CHR ''-'' # r')"
    by (simp add: make_token_def)
  from split_at_first [OF string_of_nat_no_dash string_of_nat_no_dash this]
  have p: "string_of_nat p = string_of_nat p'"
    and rest: "string_of_nat t @ CHR ''-'' # r = string_of_nat t' @ CHR ''-'' # r'" by simp_all
  from split_at_first [OF string_of_nat_no_dash string_of_nat_no_dash rest]
  have t: "string_of_nat t = string_of_nat t'" and r: "r = r'" by simp_all
  from p t r show "p = p' \<and> t = t' \<and> r = r'" by (simp add: string_of_nat_inj)
next
  assume "p = p' \<and> t = t' \<and> r = r'"
  then show "make_token p t r = make_token p' t' r'" by simp
qed

lemma local_token_inj: "local_token t = local_token t' \<longleftrightarrow> t = t'"
  by (auto simp: local_token_def dest: string_of_nat_inj)

lemma local_token_not_make_token: "local_token t \<noteq> make_token p t' r"
proof
  assume eq: "local_token t = make_token p t' r"
  obtain c cs where s: "string_of_nat p = c # cs"
    using string_of_nat_nonempty [of p] by (cases "string_of_nat p") auto
  then have "c \<in> set (string_of_nat p)" by simp
  then have d: "c \<in> set ''0123456789''" by (rule string_of_nat_digits)
  from eq s have "c = CHR ''l''" by (simp add: local_token_def make_token_def)
  with d show False by simp
qed

lemma acquire_token_enabled:
  assumes "enabled m" and "redis m \<noteq> None"
    and "acquire m key options w = (Inr (Some token), w')"
  shows "token = make_token (pid w) (now w) (fst (Math_random w))"
  using assms acquire_loop_success by (metis acquire_enabled)

lemma acquire_token_disabled:
  assumes "\<not> (enabled m \<and> redis m \<noteq> None)"
    and "acquire m key options w = (Inr (Some token), w')"
  shows "token = local_token (now w)"
  using assms by (auto simp: acquire_def)

text \<open>
  C9, as the code has it. Two acquire calls that both return a token return the same
  token exactly when both run with locking enabled and a store client, in processes with
  the same pid, at the same millisecond, and \<^verbatim>\<open>Math.random()\<close> gives both the same
  value; or both run in local mode (disabled, or no store client) at the same
  millisecond. In every other case the tokens are distinct; a local token never equals
  a store-backed one.
\<close>

theorem acquire_tokens_equal_iff:
  assumes a1: "acquire m1 key1 options1 w1 = (Inr (Some token1), w1')"
    and a2: "acquire m2 key2 options2 w2 = (Inr (Some token2), w2')"
  shows "token1 = token2 \<longleftrightarrow>
     (if enabled m1 \<and> redis m1 \<noteq> None
      then (enabled m2 \<and> redis m2 \<noteq> None) \<and> pid w1 = pid w2 \<and> now w1 = now w2 \<and>
           fst (Math_random w1) = fst (Math_random w2)
      else \<not> (enabled m2 \<and> redis m2 \<noteq> None) \<and> now w1 = now w2)"
proof (cases "enabled m1 \<and> redis m1 \<noteq> None")
  case e1: True
  then have t1: "token1 = make_token (pid w1) (now w1) (fst (Math_random w1))"
    using acquire_token_enabled a1 by blast
  show ?thesis
  proof (cases "enabled m2 \<and> redis m2 \<noteq> None")
    case e2: True
    then have "token2 = make_token (pid w2) (now w2) (fst (Math_random w2))"
      using acquire_token_enabled a2 by blast
    with t1 e1 e2 show ?thesis by (simp add: make_token_inj)
  next
    case d2: False
    from acquire_token_disabled [OF d2 a2] t1 local_token_not_make_token
    have "token1 \<noteq> token2" by metis
    with e1 d2 show ?thesis by simp
  qed
next
  case d1: False
  from acquire_token_disabled [OF d1 a1] have t1: "token1 = local_token (now w1)" .
  show ?thesis
  proof (cases "enabled m2 \<and> redis m2 \<noteq> None")
    case e2: True
    then have "token2 = make_token (pid w2) (now w2) (fst (Math_random w2))"
      using acquire_token_enabled a2 by blast
    with t1 local_token_not_make_token have "token1 \<noteq> token2" by metis
    with d1 e2 show ?thesis by auto
  next
    case d2: False
    from acquire_token_disabled [OF d2 a2] t1 d1 d2 show ?thesis
      by (auto simp: local_token_inj)
  qed
qed


lemma acquire_free_world_a:
  "acquire enabled_service ''a'' None free_world =
     (Inr (Some ''7-5-0.25''),
      free_world\<lparr>randoms := [''0.75''], faults := [],
        trace := [Call (Set ''worker:lock:a'' ''7-5-0.25'' 30000)],
        store := [''worker:lock:a'' \<mapsto> (''7-5-0.25'', 30005)]\<rparr>)"
  by (simp add: eval_defs)

theorem acquire_tokens_equal_iff_witness:
  "fst (acquire enabled_service ''a'' None free_world) = Inr (Some ''7-5-0.25'') \<and>
   fst (acquire enabled_service ''b'' None
          (snd (acquire enabled_service ''a'' None free_world))) = Inr (Some ''7-5-0.75'') \<and>
   enabled enabled_service \<and> redis enabled_service \<noteq> None \<and>
   fst (Math_random free_world) \<noteq>
     fst (Math_random (snd (acquire enabled_service ''a'' None free_world))) \<and>
   fst (acquire enabled_service ''a'' None free_world) \<noteq>
     fst (acquire enabled_service ''b'' None
            (snd (acquire enabled_service ''a'' None free_world)))"
proof -
  note e = enabled_service_simps(1) and r = enabled_service_simps(2)
  let ?w1 = "snd (acquire enabled_service ''a'' None free_world)"
  let ?w2 = "snd (acquire enabled_service ''b'' None ?w1)"
  have f1: "fst (acquire enabled_service ''a'' None free_world) = Inr (Some ''7-5-0.25'')"
    by (simp add: acquire_free_world_a)
  then have a1: "acquire enabled_service ''a'' None free_world = (Inr (Some ''7-5-0.25''), ?w1)"
    by (simp add: prod_eq_iff)
  have f2: "fst (acquire enabled_service ''b'' None ?w1) = Inr (Some ''7-5-0.75'')"
    by (simp add: acquire_free_world_a) (simp add: eval_defs)
  then have a2: "acquire enabled_service ''b'' None ?w1 = (Inr (Some ''7-5-0.75''), ?w2)"
    by (simp add: prod_eq_iff)
  have m: "fst (Math_random free_world) \<noteq> fst (Math_random ?w1)"
    by (simp add: acquire_free_world_a Math_random_def free_world_fields)
  from acquire_tokens_equal_iff [OF a1 a2] e r m
  have "''7-5-0.25'' \<noteq> ''7-5-0.75''" by (simp del: list.inject)
  with f1 f2 have "fst (acquire enabled_service ''a'' None free_world) \<noteq>
     fst (acquire enabled_service ''b'' None ?w1)"
    by (simp del: list.inject)
  with f1 f2 e r m show ?thesis by blast
qed

text \<open>
  C9 as stated fails for local tokens: with locking disabled, two acquire calls within
  one millisecond (the first leaves the world as it was) return the same token.
\<close>

theorem acquire_local_token_counterexample:
  "acquire disabled_service ''a'' None free_world = (Inr (Some ''local-5''), free_world) \<and>
   acquire disabled_service ''b'' None free_world = (Inr (Some ''local-5''), free_world)"
  by (simp add: acquire_def disabled_service_simps free_world_fields local_token_def digit_def
      string_of_nat.simps)

end
